theory Spec2Isabelle
  imports Main "HOL-Library.AList"
begin

section \<open>Python values, dictionaries and JSON documents\<close>

text \<open>
  The bot keeps its state in Python dictionaries and persists them with \<open>json.dump\<close> and
  \<open>json.load\<close>. A dictionary is an association list in insertion order: \<open>map_of\<close> is
  \<open>d.get(k)\<close>, \<open>AList.update k v\<close> is \<open>d[k] = v\<close> (an existing key keeps its place, a new
  key goes to the end) and \<open>AList.delete k\<close> is \<open>d.pop(k, None)\<close>. The keys the code uses
  are integers, booleans and strings; Python never takes the integer \<open>1\<close> and the string
  \<open>"1"\<close> for the same key. Floating-point numbers are left out.
\<close>

datatype key = KInt int | KBool bool | KStr string

datatype pyval =
    PNone
  | PBool bool
  | PInt int
  | PStr string
  | PList "pyval list"
  | PDict "(key \<times> pyval) list"

text \<open>
  A JSON text, up to white space. An object is the sequence of its members as written:
  its names are strings, and a name may occur twice.
\<close>

datatype json =
    JNull
  | JBool bool
  | JNum int
  | JString string
  | JArray "json list"
  | JObject "(string \<times> json) list"

datatype error =
    FileNotFoundError
  | JSONDecodeError
  | AttributeError
  | TypeError
  | IndexError

text \<open>\<open>str(n)\<close> for an integer: the decimal digits, with a minus sign when negative.\<close>

definition digit_char :: "nat \<Rightarrow> char" where
  "digit_char d = ''0123456789'' ! (d mod 10)"

fun str_nat :: "nat \<Rightarrow> string" where
  "str_nat n = (if n < 10 then [digit_char n] else str_nat (n div 10) @ [digit_char (n mod 10)])"

declare str_nat.simps [simp del]

definition str_int :: "int \<Rightarrow> string" where
  "str_int i = (if i < 0 then CHR ''-'' # str_nat (nat (- i)) else str_nat (nat i))"

text \<open>
  \<open>json.dump\<close> writes every dictionary key as a string: an integer key \<open>n\<close> as \<open>str(n)\<close>,
  the keys \<open>True\<close> and \<open>False\<close> as \<open>true\<close> and \<open>false\<close>.
\<close>

fun key_str :: "key \<Rightarrow> string" where
  "key_str (KStr s) = s"
| "key_str (KInt i) = str_int i"
| "key_str (KBool b) = (if b then ''true'' else ''false'')"

text \<open>
  Two keys are the same key of a dictionary when they are equal in Python: \<open>True\<close> and \<open>1\<close>
  are, and so are \<open>False\<close> and \<open>0\<close>. A dictionary keeps a key as it was first stored, so
  reading or writing under a key goes to the stored key that equals it, if there is one.
\<close>

fun key_num :: "key \<Rightarrow> int option" where
  "key_num (KInt i) = Some i"
| "key_num (KBool b) = Some (if b then 1 else 0)"
| "key_num (KStr s) = None"

definition key_eq :: "key \<Rightarrow> key \<Rightarrow> bool" where
  "key_eq a b = (a = b \<or> (key_num a \<noteq> None \<and> key_num a = key_num b))"

definition stored_key :: "(key \<times> 'v) list \<Rightarrow> key \<Rightarrow> key" where
  "stored_key d k =
     (case List.find (\<lambda>kv. key_eq (fst kv) k) d of None \<Rightarrow> k | Some kv \<Rightarrow> fst kv)"

fun json_dump :: "pyval \<Rightarrow> json" where
  "json_dump PNone = JNull"
| "json_dump (PBool b) = JBool b"
| "json_dump (PInt i) = JNum i"
| "json_dump (PStr s) = JString s"
| "json_dump (PList xs) = JArray (map json_dump xs)"
| "json_dump (PDict kvs) = JObject (map (\<lambda>(k, v). (key_str k, json_dump v)) kvs)"

text \<open>
  \<open>json.load\<close> builds a dictionary by inserting the members of an object in turn, so every
  key is a string and a repeated name keeps its first place and its last value.
\<close>

definition dict_of_pairs :: "(key \<times> pyval) list \<Rightarrow> (key \<times> pyval) list" where
  "dict_of_pairs kvs = fold (\<lambda>(k, v) d. AList.update k v d) kvs []"

fun json_load :: "json \<Rightarrow> pyval" where
  "json_load JNull = PNone"
| "json_load (JBool b) = PBool b"
| "json_load (JNum i) = PInt i"
| "json_load (JString s) = PStr s"
| "json_load (JArray xs) = PList (map json_load xs)"
| "json_load (JObject kvs) = PDict (dict_of_pairs (map (\<lambda>(k, v). (KStr k, json_load v)) kvs))"

subsection \<open>Files\<close>

text \<open>
  A file is empty (what \<open>open(path, 'w')\<close> leaves before anything is written), holds a text
  that is not JSON, or holds a JSON text. The file system maps a path to its file.
\<close>

datatype content = Empty | Garbage | Text json

type_synonym fs = "string \<rightharpoonup> content"

text \<open>\<open>with open(path, 'r') as f: json.load(f)\<close>.\<close>

definition read_json :: "fs \<Rightarrow> string \<Rightarrow> error + pyval" where
  "read_json files path =
     (case files path of
        None \<Rightarrow> Inl FileNotFoundError
      | Some Empty \<Rightarrow> Inl JSONDecodeError
      | Some Garbage \<Rightarrow> Inl JSONDecodeError
      | Some (Text j) \<Rightarrow> Inr (json_load j))"

text \<open>
  \<open>with open(path, 'w') as f: json.dump(doc, f, indent=2)\<close> works on the file in place:
  opening for writing truncates it, then the text is written. The states of the file system
  the write goes through, in order; the write of the text is taken as one step.
\<close>

definition write_json_steps :: "fs \<Rightarrow> string \<Rightarrow> pyval \<Rightarrow> fs list" where
  "write_json_steps files path doc =
     [files(path \<mapsto> Empty), files(path \<mapsto> Text (json_dump doc))]"

definition write_json :: "fs \<Rightarrow> string \<Rightarrow> pyval \<Rightarrow> fs" where
  "write_json files path doc = last (write_json_steps files path doc)"

section \<open>Casting a vote\<close>

text \<open>
  \<open>ButtonHandler._handle_vote\<close> works on \<open>client.vote_counts[thread_id]\<close>, a dictionary
  that holds the three tallies under the keys \<open>aye\<close>, \<open>nay\<close> and \<open>recuse\<close> next to \<open>index\<close>
  and \<open>users\<close>. The choice a user made earlier is itself used as the key of the tally to
  decrement.
\<close>

definition choices :: "string list" where
  "choices = [''aye'', ''nay'', ''recuse'']"

text \<open>
  \<open>if previous_vote:\<close> followed by the use of \<open>previous_vote\<close> as a dictionary key:
  \<open>None\<close> when the value is falsy, otherwise the value as a key, or the \<open>TypeError\<close> of an
  unhashable list or dictionary.
\<close>

fun previous_key :: "pyval \<Rightarrow> (error + key) option" where
  "previous_key PNone = None"
| "previous_key (PBool b) = (if b then Some (Inr (KBool True)) else None)"
| "previous_key (PInt i) = (if i \<noteq> 0 then Some (Inr (KInt i)) else None)"
| "previous_key (PStr s) = (if s \<noteq> [] then Some (Inr (KStr s)) else None)"
| "previous_key (PList xs) = (if xs \<noteq> [] then Some (Inl TypeError) else None)"
| "previous_key (PDict d) = (if d \<noteq> [] then Some (Inl TypeError) else None)"

text \<open>The operand of \<open>- 1\<close> and \<open>+ 1\<close>: an integer, or a boolean counted as 0 or 1.\<close>

fun py_num :: "pyval \<Rightarrow> error + int" where
  "py_num (PInt i) = Inr i"
| "py_num (PBool b) = Inr (if b then 1 else 0)"
| "py_num _ = Inl TypeError"

text \<open>\<open>d.get(k, 0)\<close>.\<close>

definition get0 :: "(key \<times> pyval) list \<Rightarrow> key \<Rightarrow> pyval" where
  "get0 d k = (case map_of d (stored_key d k) of None \<Rightarrow> PInt 0 | Some v \<Rightarrow> v)"

text \<open>\<open>previous_vote = vote_data.get('users', {}).get(user_id)\<close>.\<close>

definition previous_vote_of :: "(key \<times> pyval) list \<Rightarrow> string \<Rightarrow> error + pyval" where
  "previous_vote_of vote_data user_id =
     (case map_of vote_data (KStr ''users'') of
        None \<Rightarrow> Inr PNone
      | Some (PDict us) \<Rightarrow> Inr (case map_of us (KStr user_id) of None \<Rightarrow> PNone | Some v \<Rightarrow> v)
      | Some _ \<Rightarrow> Inl AttributeError)"

text \<open>
  \<open>if previous_vote: vote_data[previous_vote] = max(0, vote_data.get(previous_vote, 0) - 1)\<close>.
\<close>

definition remove_previous :: "(key \<times> pyval) list \<Rightarrow> pyval \<Rightarrow> error + (key \<times> pyval) list" where
  "remove_previous vote_data previous_vote =
     (case previous_key previous_vote of
        None \<Rightarrow> Inr vote_data
      | Some (Inl e) \<Rightarrow> Inl e
      | Some (Inr k) \<Rightarrow>
          (case py_num (get0 vote_data k) of
             Inl e \<Rightarrow> Inl e
           | Inr n \<Rightarrow>
               Inr (AList.update (stored_key vote_data k) (PInt (max 0 (n - 1))) vote_data)))"

text \<open>
  \<open>if 'users' not in vote_data: vote_data['users'] = {}\<close> and then
  \<open>vote_data['users'][user_id] = vote_type\<close>.
\<close>

definition set_user_vote ::
  "(key \<times> pyval) list \<Rightarrow> string \<Rightarrow> string \<Rightarrow> error + (key \<times> pyval) list" where
  "set_user_vote vote_data user_id vote_type =
     (let vd = (if map_of vote_data (KStr ''users'') = None
                then AList.update (KStr ''users'') (PDict []) vote_data else vote_data)
      in case map_of vd (KStr ''users'') of
           Some (PDict us) \<Rightarrow>
             Inr (AList.update (KStr ''users'')
                    (PDict (AList.update (KStr user_id) (PStr vote_type) us)) vd)
         | _ \<Rightarrow> Inl TypeError)"

text \<open>\<open>vote_data[vote_type] = vote_data.get(vote_type, 0) + 1\<close>.\<close>

definition add_vote :: "(key \<times> pyval) list \<Rightarrow> string \<Rightarrow> error + (key \<times> pyval) list" where
  "add_vote vote_data vote_type =
     (case py_num (get0 vote_data (KStr vote_type)) of
        Inl e \<Rightarrow> Inl e
      | Inr n \<Rightarrow> Inr (AList.update (KStr vote_type) (PInt (n + 1)) vote_data))"

text \<open>
  The four statements on one vote record. The record is changed in place, so when a
  statement raises, what the earlier statements did stays: the result is the record as
  it is left, with the exception if there was one.
\<close>

definition vote_steps :: "pyval \<Rightarrow> string \<Rightarrow> string \<Rightarrow> pyval \<times> error option" where
  "vote_steps vd user_id vote_type =
     (case vd of
        PDict d \<Rightarrow>
          (case previous_vote_of d user_id of
             Inl e \<Rightarrow> (vd, Some e)
           | Inr previous_vote \<Rightarrow>
               (case remove_previous d previous_vote of
                  Inl e \<Rightarrow> (vd, Some e)
                | Inr d1 \<Rightarrow>
                    (case set_user_vote d1 user_id vote_type of
                       Inl e \<Rightarrow> (PDict d1, Some e)
                     | Inr d2 \<Rightarrow>
                         (case add_vote d2 vote_type of
                            Inl e \<Rightarrow> (PDict d2, Some e)
                          | Inr d3 \<Rightarrow> (PDict d3, None)))))
      | _ \<Rightarrow> (vd, Some AttributeError))"

text \<open>
  \<open>GovernanceBot.save_vote_counts\<close>. The class defines it twice; the later definition,
  which writes the file and makes no backup, is the one in effect.
\<close>

definition vote_counts_file :: string where
  "vote_counts_file = ''../data/vote_counts.json''"

definition save_vote_counts :: "(key \<times> pyval) list \<Rightarrow> fs \<Rightarrow> fs" where
  "save_vote_counts vote_counts files = write_json files vote_counts_file (PDict vote_counts)"

datatype response = NoPermission | ThreadInactive | Recorded | ErrorOccurred

text \<open>
  \<open>_handle_vote\<close>, on the state it reads and changes: \<open>client.vote_counts\<close> and the files.
  \<open>permitted\<close> is the answer of the permission check. Any exception is caught and
  answered with an error message; nothing is saved then.
\<close>

type_synonym state = "(key \<times> pyval) list \<times> fs"

definition handle_vote :: "bool \<Rightarrow> string \<Rightarrow> string \<Rightarrow> string \<Rightarrow> state \<Rightarrow> response \<times> state" where
  "handle_vote permitted thread_id user_id vote_type st =
     (case st of (vote_counts, files) \<Rightarrow>
        if \<not> permitted then (NoPermission, st)
        else
          (case map_of vote_counts (KStr thread_id) of
             None \<Rightarrow> (ThreadInactive, st)
           | Some vd \<Rightarrow>
               (case vote_steps vd user_id vote_type of
                  (vd', Some e) \<Rightarrow>
                    (ErrorOccurred, (AList.update (KStr thread_id) vd' vote_counts, files))
                | (vd', None) \<Rightarrow>
                    (let vc = AList.update (KStr thread_id) vd' vote_counts
                     in (Recorded, (vc, save_vote_counts vc files))))))"

text \<open>A sequence of votes by one user on one thread, with the answers given.\<close>

fun cast_votes :: "string \<Rightarrow> string \<Rightarrow> string list \<Rightarrow> state \<Rightarrow> response list \<times> state" where
  "cast_votes thread_id user_id [] st = ([], st)"
| "cast_votes thread_id user_id (c # cs) st =
     (case handle_vote True thread_id user_id c st of
        (r, st') \<Rightarrow> (case cast_votes thread_id user_id cs st' of (rs, st'') \<Rightarrow> (r # rs, st'')))"

text \<open>
  The tally invariant of a vote record: each tally is the number of entries of \<open>users\<close> with
  that choice, and the tallies add up to the number of users.
\<close>

definition count_votes :: "(key \<times> pyval) list \<Rightarrow> string \<Rightarrow> nat" where
  "count_votes us c = length (filter (\<lambda>kv. snd kv = PStr c) us)"

definition tally_inv :: "pyval \<Rightarrow> bool" where
  "tally_inv vd =
     (case vd of
        PDict d \<Rightarrow>
          (case map_of d (KStr ''users'') of
             Some (PDict us) \<Rightarrow>
               list_all (\<lambda>c. map_of d (KStr c) = Some (PInt (int (count_votes us c)))) choices
               \<and> sum_list (map (count_votes us) choices) = length us
           | _ \<Rightarrow> False)
      | _ \<Rightarrow> False)"

text \<open>\<open>vote_data['users'].get(user_id)\<close> of a vote record.\<close>

definition user_choice :: "pyval \<Rightarrow> string \<Rightarrow> pyval option" where
  "user_choice vd user_id =
     (case vd of
        PDict d \<Rightarrow>
          (case map_of d (KStr ''users'') of
             Some (PDict us) \<Rightarrow> map_of us (KStr user_id)
           | _ \<Rightarrow> None)
      | _ \<Rightarrow> None)"

section \<open>Loading and saving the documents\<close>

text \<open>
  \<open>GovernanceBot.load_vote_counts\<close>: only a missing file is caught and gives the empty
  document; any other exception of \<open>json.load\<close> goes to the caller.
\<close>

definition load_vote_counts :: "fs \<Rightarrow> error + pyval" where
  "load_vote_counts files =
     (case read_json files vote_counts_file of
        Inl FileNotFoundError \<Rightarrow> Inr (PDict [])
      | Inl e \<Rightarrow> Inl e
      | Inr doc \<Rightarrow> Inr doc)"

text \<open>
  \<open>GovernanceMonitor._load_cache\<close>: the empty document when the file does not exist, and
  also, after logging, when reading it raises anything.
\<close>

definition cache_file :: string where
  "cache_file = ''../data/governance_cache.json''"

definition load_cache :: "fs \<Rightarrow> error + pyval" where
  "load_cache files =
     (if files cache_file \<noteq> None
      then (case read_json files cache_file of
              Inl e \<Rightarrow> Inr (PDict [])
            | Inr doc \<Rightarrow> Inr doc)
      else Inr (PDict []))"

text \<open>\<open>GovernanceMonitor._save_cache\<close>.\<close>

definition save_cache :: "fs \<Rightarrow> pyval \<Rightarrow> fs" where
  "save_cache files cache_data = write_json files cache_file cache_data"

section \<open>Discovery of new proposals\<close>

text \<open>\<open>n == v\<close> for an integer \<open>n\<close>: a boolean equals 0 or 1.\<close>

fun py_eq_int :: "int \<Rightarrow> pyval \<Rightarrow> bool" where
  "py_eq_int n (PInt m) = (n = m)"
| "py_eq_int n (PBool b) = (n = (if b then 1 else 0))"
| "py_eq_int n _ = False"

text \<open>
  \<open>n in container\<close> for an integer \<open>n\<close>: a key of a dictionary, an element of a list;
  a string or a scalar on the right raises \<open>TypeError\<close>.
\<close>

fun py_in_int :: "int \<Rightarrow> pyval \<Rightarrow> error + bool" where
  "py_in_int n (PDict d) = Inr (list_ex (\<lambda>kv. key_eq (fst kv) (KInt n)) d)"
| "py_in_int n (PList xs) = Inr (list_ex (py_eq_int n) xs)"
| "py_in_int n _ = Inl TypeError"

text \<open>
  \<open>container[k] = v\<close>: a dictionary takes any key; a list takes an integer index in range,
  counted from the end when negative (a boolean is the index 0 or 1); nothing else can
  be assigned to.
\<close>

definition list_setitem :: "pyval list \<Rightarrow> int \<Rightarrow> pyval \<Rightarrow> error + pyval" where
  "list_setitem xs i v =
     (let n = int (length xs); j = (if i < 0 then i + n else i)
      in if 0 \<le> j \<and> j < n then Inr (PList (xs[nat j := v])) else Inl IndexError)"

fun py_setitem :: "pyval \<Rightarrow> key \<Rightarrow> pyval \<Rightarrow> error + pyval" where
  "py_setitem (PDict d) k v = Inr (PDict (AList.update (stored_key d k) v d))"
| "py_setitem (PList xs) (KInt i) v = list_setitem xs i v"
| "py_setitem (PList xs) (KBool b) v = list_setitem xs (if b then 1 else 0) v"
| "py_setitem _ _ _ = Inl TypeError"

text \<open>\<open>active_proposals[proposal_id].get('title', f'Proposal #{proposal_id}')\<close>.\<close>

definition title_of :: "int \<Rightarrow> pyval \<Rightarrow> error + pyval" where
  "title_of proposal_id metadata =
     (case metadata of
        PDict m \<Rightarrow>
          Inr (case map_of m (KStr ''title'') of
                 None \<Rightarrow> PStr (''Proposal #'' @ str_int proposal_id)
               | Some t \<Rightarrow> t)
      | _ \<Rightarrow> Inl AttributeError)"

definition cache_entry :: "int \<Rightarrow> string \<Rightarrow> pyval \<Rightarrow> pyval" where
  "cache_entry proposal_id now title =
     PDict [(KStr ''id'', PInt proposal_id), (KStr ''discovered_at'', PStr now),
            (KStr ''status'', PStr ''new''), (KStr ''title'', title)]"

text \<open>
  The loop of \<open>GovernanceMonitor.monitor_new_proposals\<close> over the active proposals, whose
  ids are integers as the chain source's contract gives them (\<open>int(proposal_id)\<close> is then
  the id itself). \<open>clock n\<close> is the \<open>n\<close>-th reading of \<open>datetime.now\<close> during the call. The
  loop carries \<open>new_proposals\<close>, \<open>cached_proposals\<close> and the number of readings so far.
\<close>

fun discover_loop ::
  "(nat \<Rightarrow> string) \<Rightarrow> (int \<times> pyval) list \<Rightarrow> int list \<times> pyval \<times> nat
     \<Rightarrow> error + (int list \<times> pyval \<times> nat)" where
  "discover_loop clock [] s = Inr s"
| "discover_loop clock ((proposal_id, metadata) # rest) (new_proposals, cached, tick) =
     (case py_in_int proposal_id cached of
        Inl e \<Rightarrow> Inl e
      | Inr True \<Rightarrow> discover_loop clock rest (new_proposals, cached, tick)
      | Inr False \<Rightarrow>
          (case title_of proposal_id metadata of
             Inl e \<Rightarrow> Inl e
           | Inr title \<Rightarrow>
               (case py_setitem cached (KInt proposal_id)
                       (cache_entry proposal_id (clock tick) title) of
                  Inl e \<Rightarrow> Inl e
                | Inr cached' \<Rightarrow>
                    discover_loop clock rest (new_proposals @ [proposal_id], cached', tick + 1))))"

text \<open>
  The cache is loaded and brought up to date in memory; the result is the list of new ids
  with the updated cache.
\<close>

definition discover :: "(nat \<Rightarrow> string) \<Rightarrow> (int \<times> pyval) list \<Rightarrow> fs \<Rightarrow> error + (int list \<times> pyval)" where
  "discover clock active_proposals files =
     (case load_cache files of
        Inl e \<Rightarrow> Inl e
      | Inr cached \<Rightarrow>
          (case discover_loop clock active_proposals ([], cached, 0) of
             Inl e \<Rightarrow> Inl e
           | Inr (new_proposals, cached', tick) \<Rightarrow> Inr (new_proposals, cached')))"

text \<open>
  \<open>monitor_new_proposals\<close>: the updated cache is saved and the new ids returned; when
  anything raises, the error is logged, nothing is saved and the result is the empty list.
\<close>

definition monitor_new_proposals :: "(nat \<Rightarrow> string) \<Rightarrow> (int \<times> pyval) list \<Rightarrow> fs \<Rightarrow> int list \<times> fs" where
  "monitor_new_proposals clock active_proposals files =
     (case discover clock active_proposals files of
        Inl e \<Rightarrow> ([], files)
      | Inr (new_proposals, cached) \<Rightarrow> (new_proposals, save_cache files cached))"

text \<open>
  Documents whose dictionaries, at every depth, have string keys only, none of them
  twice: the documents that a JSON text can denote.
\<close>

fun is_KStr :: "key \<Rightarrow> bool" where
  "is_KStr (KStr s) = True"
| "is_KStr (KInt i) = False"
| "is_KStr (KBool b) = False"

fun str_keyed :: "pyval \<Rightarrow> bool" where
  "str_keyed (PList xs) = list_all str_keyed xs"
| "str_keyed (PDict kvs) =
     (list_all (\<lambda>kv. is_KStr (fst kv) \<and> str_keyed (snd kv)) kvs \<and> distinct (map fst kvs))"
| "str_keyed _ = True"

section \<open>Saving, step by step\<close>

text \<open>
  The states of the file system during \<open>save_vote_counts\<close> and \<open>_save_cache\<close>: both write
  their file in place.
\<close>

definition save_vote_counts_steps :: "(key \<times> pyval) list \<Rightarrow> fs \<Rightarrow> fs list" where
  "save_vote_counts_steps vote_counts files =
     write_json_steps files vote_counts_file (PDict vote_counts)"

definition save_cache_steps :: "fs \<Rightarrow> pyval \<Rightarrow> fs list" where
  "save_cache_steps files cache_data = write_json_steps files cache_file cache_data"

section \<open>Archiving retired proposals\<close>

fun is_dict :: "pyval \<Rightarrow> bool" where
  "is_dict (PDict d) = True"
| "is_dict _ = False"

text \<open>\<open>vote_data.get('index')\<close> of a dictionary.\<close>

definition index_of :: "(key \<times> pyval) list \<Rightarrow> pyval" where
  "index_of d = (case map_of d (KStr ''index'') of None \<Rightarrow> PNone | Some v \<Rightarrow> v)"

text \<open>
  \<open>proposal_index is not None and proposal_index not in active_proposals\<close>, where
  \<open>active_proposals\<close> is a list of integers.
\<close>

definition no_longer_active :: "pyval \<Rightarrow> int list \<Rightarrow> bool" where
  "no_longer_active proposal_index active_proposals =
     (proposal_index \<noteq> PNone \<and> \<not> list_ex (\<lambda>a. py_eq_int a proposal_index) active_proposals)"

text \<open>
  \<open>{**vote_data, 'archived_at': <now>, 'final_status': 'completed'}\<close>.
\<close>

definition archived_entry :: "(key \<times> pyval) list \<Rightarrow> string \<Rightarrow> pyval" where
  "archived_entry d now =
     PDict (AList.update (KStr ''final_status'') (PStr ''completed'')
              (AList.update (KStr ''archived_at'') (PStr now) d))"

text \<open>
  The loop of \<open>CacheManager.delete_executed_keys_and_archive\<close> over
  \<open>vote_counts.items()\<close>. It carries \<open>threads_to_lock\<close>, \<open>keys_to_remove\<close>,
  \<open>archived_votes\<close> and the number of clock readings so far.
\<close>

fun archive_loop ::
  "(nat \<Rightarrow> string) \<Rightarrow> int list \<Rightarrow> (key \<times> pyval) list \<Rightarrow> key list \<times> key list \<times> pyval \<times> nat
     \<Rightarrow> error + (key list \<times> key list \<times> pyval \<times> nat)" where
  "archive_loop clock active [] s = Inr s"
| "archive_loop clock active ((thread_id, vote_data) # rest)
       (threads_to_lock, keys_to_remove, archived, tick) =
     (case vote_data of
        PDict d \<Rightarrow>
          if no_longer_active (index_of d) active
          then (case py_setitem archived thread_id (archived_entry d (clock tick)) of
                  Inl e \<Rightarrow> Inl e
                | Inr archived' \<Rightarrow>
                    archive_loop clock active rest
                      (threads_to_lock @ [thread_id], keys_to_remove @ [thread_id], archived',
                       tick + 1))
          else archive_loop clock active rest (threads_to_lock, keys_to_remove, archived, tick)
      | _ \<Rightarrow> Inl AttributeError)"

text \<open>
  \<open>archived_votes = {}\<close>, replaced by the content of the archive file when it exists.
\<close>

definition load_archive :: "fs \<Rightarrow> string \<Rightarrow> error + pyval" where
  "load_archive files archive_filename =
     (if files archive_filename \<noteq> None then read_json files archive_filename
      else Inr (PDict []))"

text \<open>
  The function up to the comment \<open>Save updated files\<close>: both documents are loaded, the
  loop runs and the keys collected are removed with \<open>vote_counts.pop(key, None)\<close>. The
  result is \<open>threads_to_lock\<close>, \<open>vote_counts\<close> and \<open>archived_votes\<close> as they are then.
\<close>

definition archive_plan ::
  "(nat \<Rightarrow> string) \<Rightarrow> string \<Rightarrow> int list \<Rightarrow> string \<Rightarrow> fs \<Rightarrow> error + (key list \<times> pyval \<times> pyval)" where
  "archive_plan clock json_file_path active archive_filename files =
     (case read_json files json_file_path of
        Inl e \<Rightarrow> Inl e
      | Inr vote_counts \<Rightarrow>
          (case load_archive files archive_filename of
             Inl e \<Rightarrow> Inl e
           | Inr archived \<Rightarrow>
               (case vote_counts of
                  PDict vc \<Rightarrow>
                    (case archive_loop clock active vc ([], [], archived, 0) of
                       Inl e \<Rightarrow> Inl e
                     | Inr (threads_to_lock, keys_to_remove, archived', tick) \<Rightarrow>
                         Inr (threads_to_lock,
                              PDict (fold AList.delete keys_to_remove vc), archived'))
                | _ \<Rightarrow> Inl AttributeError)))"

text \<open>
  The two writes that follow, the vote counts first and the archive second, as the states
  of the file system they go through. When anything raised before, nothing is written
  and the result is the empty list.
\<close>

definition archive_steps ::
  "(nat \<Rightarrow> string) \<Rightarrow> string \<Rightarrow> int list \<Rightarrow> string \<Rightarrow> fs \<Rightarrow> key list \<times> fs list" where
  "archive_steps clock json_file_path active archive_filename files =
     (case archive_plan clock json_file_path active archive_filename files of
        Inl e \<Rightarrow> ([], [])
      | Inr (threads_to_lock, vote_counts, archived) \<Rightarrow>
          (threads_to_lock,
           write_json_steps files json_file_path vote_counts
           @ write_json_steps (write_json files json_file_path vote_counts)
               archive_filename archived))"

definition delete_executed_keys_and_archive ::
  "(nat \<Rightarrow> string) \<Rightarrow> string \<Rightarrow> int list \<Rightarrow> string \<Rightarrow> fs \<Rightarrow> key list \<times> fs" where
  "delete_executed_keys_and_archive clock json_file_path active archive_filename files =
     (case archive_steps clock json_file_path active archive_filename files of
        (threads_to_lock, steps) \<Rightarrow> (threads_to_lock, last (files # steps)))"

text \<open>
  A vote record is retired when it has a proposal index that is not in the active set.
\<close>

definition retired :: "int list \<Rightarrow> pyval \<Rightarrow> bool" where
  "retired active vote_data =
     (case vote_data of PDict d \<Rightarrow> no_longer_active (index_of d) active | _ \<Rightarrow> False)"

text \<open>The entry of a thread in the archive document on disk, if there is one.\<close>

definition archived_record :: "fs \<Rightarrow> string \<Rightarrow> key \<Rightarrow> pyval option" where
  "archived_record files archive_filename thread_id =
     (case load_archive files archive_filename of
        Inr (PDict ar) \<Rightarrow> map_of ar thread_id
      | _ \<Rightarrow> None)"

text \<open>The entry of a thread in the vote-count document on disk, if there is one.\<close>

definition live_record :: "fs \<Rightarrow> string \<Rightarrow> key \<Rightarrow> pyval option" where
  "live_record files json_file_path thread_id =
     (case read_json files json_file_path of
        Inr (PDict vc) \<Rightarrow> map_of vc thread_id
      | _ \<Rightarrow> None)"

text \<open>The archive entry of a record, stamped with a time.\<close>

definition stamped :: "pyval \<Rightarrow> string \<Rightarrow> pyval option" where
  "stamped vote_data now =
     (case vote_data of PDict d \<Rightarrow> Some (archived_entry d now) | _ \<Rightarrow> None)"

section \<open>Rotating backups\<close>

text \<open>
  The backup directory: each regular file with its name and its modification time (a
  number; an integer here). A directory has no name twice. \<open>os.listdir\<close> returns the names
  in arbitrary order, so the order in which a directory is listed is a parameter,
  \<open>listdir\<close>, of what follows; it lists a directory when it returns its files, each once.
\<close>

type_synonym directory = "(string \<times> int) list"

definition lists_directory :: "(directory \<Rightarrow> directory) \<Rightarrow> directory \<Rightarrow> bool" where
  "lists_directory listdir dir =
     (set (listdir dir) = set dir \<and> length (listdir dir) = length dir)"

text \<open>\<open>s.endswith(suffix)\<close>.\<close>

definition endswith :: "string \<Rightarrow> string \<Rightarrow> bool" where
  "endswith s suffix = (drop (length s - length suffix) s = suffix)"

definition is_backup :: "string \<times> int \<Rightarrow> bool" where
  "is_backup f = endswith (fst f) ''.bak''"

text \<open>\<open>xs[n:]\<close>: from position \<open>n\<close>, counted from the end when \<open>n\<close> is negative.\<close>

definition slice_from :: "int \<Rightarrow> 'a list \<Rightarrow> 'a list" where
  "slice_from n xs = (if 0 \<le> n then drop (nat n) xs else drop (length xs - nat (- n)) xs)"

text \<open>
  \<open>backup_files.sort(key=lambda x: x[1], reverse=True)\<close>: newest first, files of equal
  time in the order they had.
\<close>

definition newest_first :: "directory \<Rightarrow> directory" where
  "newest_first files = sort_key (\<lambda>f. - snd f) files"

text \<open>
  \<open>CacheManager._cleanup_old_backups\<close>: the files whose name ends in \<open>.bak\<close> are sorted
  and those from position \<open>max_backups\<close> on are removed with \<open>os.remove\<close>.
\<close>

definition cleanup_old_backups ::
  "(directory \<Rightarrow> directory) \<Rightarrow> directory \<Rightarrow> int \<Rightarrow> directory" where
  "cleanup_old_backups listdir dir max_backups =
     (let backup_files = newest_first (filter is_backup (listdir dir))
      in fold AList.delete (map fst (slice_from max_backups backup_files)) dir)"

text \<open>
  The name of a backup: \<open>f"{os.path.basename(source_path)}_{timestamp}.bak"\<close>, where the
  time stamp is the clock formatted to the second.
\<close>

definition backup_name :: "string \<Rightarrow> string \<Rightarrow> string" where
  "backup_name basename timestamp = basename @ ''_'' @ timestamp @ ''.bak''"

text \<open>
  \<open>CacheManager.rotating_backup_file\<close>. \<open>source\<close> is the modification time of the source
  file, or \<open>None\<close> when the file does not exist and nothing is done. \<open>shutil.copy2\<close>
  copies the file with its modification time, replacing a backup of the same name.
\<close>

definition rotating_backup_file ::
  "(directory \<Rightarrow> directory) \<Rightarrow> int option \<Rightarrow> string \<Rightarrow> string \<Rightarrow> int \<Rightarrow> directory
     \<Rightarrow> directory" where
  "rotating_backup_file listdir source basename timestamp max_backups dir =
     (case source of
        None \<Rightarrow> dir
      | Some mtime \<Rightarrow>
          cleanup_old_backups listdir
            (AList.update (backup_name basename timestamp) mtime dir) max_backups)"

text \<open>
  Successive backups of a source file, each given by the modification time the source has
  then and by the time stamp of the clock.
\<close>

fun backups ::
  "(directory \<Rightarrow> directory) \<Rightarrow> string \<Rightarrow> int \<Rightarrow> (int \<times> string) list \<Rightarrow> directory
     \<Rightarrow> directory" where
  "backups listdir basename max_backups [] dir = dir"
| "backups listdir basename max_backups ((mtime, timestamp) # runs) dir =
     backups listdir basename max_backups runs
       (rotating_backup_file listdir (Some mtime) basename timestamp max_backups dir)"

section \<open>Example data\<close>

text \<open>
  The vote record the bot creates for a new thread, here for proposal 1 and thread
  \<open>100\<close>, and a store that holds just this record.
\<close>

definition fresh_record :: "int \<Rightarrow> pyval" where
  "fresh_record proposal_index =
     PDict [(KStr ''index'', PInt proposal_index), (KStr ''aye'', PInt 0), (KStr ''nay'', PInt 0),
            (KStr ''recuse'', PInt 0), (KStr ''users'', PDict [])]"

definition one_thread :: "(key \<times> pyval) list" where
  "one_thread = [(KStr ''100'', fresh_record 1)]"

text \<open>
  The active set of the first scenario of the specification, proposals 1 and 2, and a
  clock.
\<close>

definition two_active :: "(int \<times> pyval) list" where
  "two_active =
     [(1, PDict [(KStr ''title'', PStr ''Development Fund'')]),
      (2, PDict [(KStr ''title'', PStr ''Bridge Upgrade'')])]"

definition example_clock :: "nat \<Rightarrow> string" where
  "example_clock n = ''2024-01-01T00:00:0'' @ [digit_char n]"

text \<open>The cache that discovery builds in memory from an empty store for this active set.\<close>

definition discovered_cache :: pyval where
  "discovered_cache =
     PDict [(KInt 1, cache_entry 1 (example_clock 0) (PStr ''Development Fund'')),
            (KInt 2, cache_entry 2 (example_clock 1) (PStr ''Bridge Upgrade''))]"

text \<open>The same cache as a JSON text denotes it, with strings for keys.\<close>

definition stored_cache :: pyval where
  "stored_cache =
     PDict [(KStr ''1'', cache_entry 1 (example_clock 0) (PStr ''Development Fund'')),
            (KStr ''2'', cache_entry 2 (example_clock 1) (PStr ''Bridge Upgrade''))]"

text \<open>
  The third scenario of the specification: threads \<open>100\<close> for proposal 1 and \<open>200\<close> for
  proposal 2 in the vote-count file, no archive file yet.
\<close>

definition two_threads :: "(key \<times> pyval) list" where
  "two_threads = [(KStr ''100'', fresh_record 1), (KStr ''200'', fresh_record 2)]"

definition archive_file :: string where
  "archive_file = ''../data/archived_votes.json''"

definition two_threads_files :: fs where
  "two_threads_files = Map.empty(vote_counts_file \<mapsto> Text (json_dump (PDict two_threads)))"

text \<open>A vote-count file with one record that has no \<open>index\<close>, for thread \<open>300\<close>.\<close>

definition no_index_record :: "(key \<times> pyval) list" where
  "no_index_record =
     [(KStr ''aye'', PInt 1), (KStr ''nay'', PInt 0), (KStr ''recuse'', PInt 0),
      (KStr ''users'', PDict [(KStr ''42'', PStr ''aye'')])]"

definition no_index_files :: fs where
  "no_index_files =
     Map.empty(vote_counts_file \<mapsto> Text (json_dump (PDict [(KStr ''300'', PDict no_index_record)])))"

text \<open>A backup directory with two backups, both newer than the source file.\<close>

definition two_backups :: directory where
  "two_backups =
     [(''vote_counts.json_20240101_000000.bak'', 200),
      (''vote_counts.json_20240101_000001.bak'', 300)]"

section \<open>The tally of a vote record\<close>

lemma key_eq_KStr [simp]: "key_eq k (KStr s) \<longleftrightarrow> k = KStr s"
  by (cases k) (auto simp: key_eq_def)

lemma stored_key_KStr [simp]: "stored_key d (KStr s) = KStr s"
proof (cases "List.find (\<lambda>kv. key_eq (fst kv) (KStr s)) d")
  case None
  then show ?thesis by (simp add: stored_key_def)
next
  case (Some kv)
  then have "key_eq (fst kv) (KStr s)" by (auto simp: find_Some_iff)
  with Some show ?thesis by (simp add: stored_key_def)
qed

lemma stored_key_is_KStr: "is_KStr k \<Longrightarrow> stored_key d k = k"
  by (cases k) simp_all

lemma count_votes_Nil [simp]: "count_votes [] c = 0"
  by (simp add: count_votes_def)

lemma count_votes_Cons [simp]:
  "count_votes (kv # us) c = (if snd kv = PStr c then Suc (count_votes us c) else count_votes us c)"
  by (simp add: count_votes_def)

lemma count_votes_update_new:
  "map_of us k = None \<Longrightarrow>
   count_votes (AList.update k v us) c = count_votes us c + (if v = PStr c then 1 else 0)"
  by (induction us) (auto split: if_splits)

lemma count_votes_update_old:
  "map_of us k = Some w \<Longrightarrow>
   count_votes (AList.update k v us) c + (if w = PStr c then 1 else 0)
     = count_votes us c + (if v = PStr c then 1 else 0)"
  by (induction us) (auto split: if_splits)

lemma length_update_new: "map_of us k = None \<Longrightarrow> length (AList.update k v us) = Suc (length us)"
  by (induction us) (auto split: if_splits)

lemma length_update_old: "map_of us k = Some w \<Longrightarrow> length (AList.update k v us) = length us"
  by (induction us) (auto split: if_splits)

lemma count_votes_pos: "map_of us k = Some (PStr c) \<Longrightarrow> 0 < count_votes us c"
  by (induction us) (auto split: if_splits)

lemma sum_counts_le:
  "sum_list (map (count_votes us) choices) \<le> length us"
  by (induction us) (auto simp: choices_def)

lemma sum_counts_all:
  "sum_list (map (count_votes us) choices) = length us \<Longrightarrow> kv \<in> set us \<Longrightarrow>
   snd kv \<in> PStr ` set choices"
proof (induction us)
  case Nil
  then show ?case by simp
next
  case (Cons a us)
  have le: "sum_list (map (count_votes us) choices) \<le> length us" by (rule sum_counts_le)
  from Cons.prems(1) le have a: "snd a \<in> PStr ` set choices"
    by (auto simp: choices_def split: if_splits)
  from Cons.prems(1) a have "sum_list (map (count_votes us) choices) = length us"
    by (auto simp: choices_def split: if_splits)
  with Cons a show ?case by auto
qed

lemma tally_invE:
  assumes "tally_inv vd"
  obtains d us where "vd = PDict d" "map_of d (KStr ''users'') = Some (PDict us)"
    "\<And>c. c \<in> set choices \<Longrightarrow> map_of d (KStr c) = Some (PInt (int (count_votes us c)))"
    "sum_list (map (count_votes us) choices) = length us"
  using assms unfolding tally_inv_def
  by (auto split: pyval.splits option.splits simp: list_all_iff)

lemma tally_invI:
  assumes "map_of d (KStr ''users'') = Some (PDict us)"
    "\<And>c. c \<in> set choices \<Longrightarrow> map_of d (KStr c) = Some (PInt (int (count_votes us c)))"
    "sum_list (map (count_votes us) choices) = length us"
  shows "tally_inv (PDict d)"
  using assms unfolding tally_inv_def by (simp add: list_all_iff)

lemma users_not_choice: "c \<in> set choices \<Longrightarrow> c \<noteq> ''users''" "c \<in> set choices \<Longrightarrow> c \<noteq> []"
  by (auto simp: choices_def)

lemma vote_steps_new:
  assumes d: "map_of d (KStr ''users'') = Some (PDict us)"
    and cnt: "\<And>c. c \<in> set choices \<Longrightarrow> map_of d (KStr c) = Some (PInt (int (count_votes us c)))"
    and vt: "vote_type \<in> set choices"
    and new: "map_of us (KStr u) = None"
  shows "vote_steps (PDict d) u vote_type =
     (PDict (AList.update (KStr vote_type) (PInt (int (count_votes us vote_type) + 1))
        (AList.update (KStr ''users'') (PDict (AList.update (KStr u) (PStr vote_type) us)) d)), None)"
  using d cnt[OF vt] new users_not_choice[OF vt]
  by (simp add: vote_steps_def previous_vote_of_def remove_previous_def set_user_vote_def
      add_vote_def get0_def update_conv')

lemma vote_steps_old:
  assumes d: "map_of d (KStr ''users'') = Some (PDict us)"
    and cnt: "\<And>c. c \<in> set choices \<Longrightarrow> map_of d (KStr c) = Some (PInt (int (count_votes us c)))"
    and vt: "vote_type \<in> set choices"
    and p: "p \<in> set choices"
    and old: "map_of us (KStr u) = Some (PStr p)"
  shows "vote_steps (PDict d) u vote_type =
     (let d1 = AList.update (KStr p) (PInt (int (count_votes us p) - 1)) d;
          d2 = AList.update (KStr ''users'') (PDict (AList.update (KStr u) (PStr vote_type) us)) d1
      in (PDict (AList.update (KStr vote_type)
            (PInt ((if vote_type = p then int (count_votes us p) - 1 else int (count_votes us vote_type)) + 1)) d2), None))"
  using d cnt[OF vt] cnt[OF p] old users_not_choice[OF vt] users_not_choice[OF p] count_votes_pos[OF old]
  by (simp add: vote_steps_def previous_vote_of_def remove_previous_def set_user_vote_def
      add_vote_def get0_def update_conv' Let_def)

lemma vote_steps_inv:
  assumes inv: "tally_inv vd" and vt: "vote_type \<in> set choices"
  shows "\<exists>d'. vote_steps vd u vote_type = (PDict d', None) \<and> tally_inv (PDict d')
           \<and> user_choice (PDict d') u = Some (PStr vote_type)"
proof -
  from inv obtain d us where vd: "vd = PDict d"
    and d: "map_of d (KStr ''users'') = Some (PDict us)"
    and cnt: "\<And>c. c \<in> set choices \<Longrightarrow> map_of d (KStr c) = Some (PInt (int (count_votes us c)))"
    and total: "sum_list (map (count_votes us) choices) = length us"
    by (rule tally_invE) blast
  let ?us = "AList.update (KStr u) (PStr vote_type) us"
  note nu = users_not_choice[OF vt]
  show ?thesis
  proof (cases "map_of us (KStr u)")
    case None
    let ?d = "AList.update (KStr vote_type) (PInt (int (count_votes us vote_type) + 1))
        (AList.update (KStr ''users'') (PDict ?us) d)"
    have steps: "vote_steps vd u vote_type = (PDict ?d, None)"
      unfolding vd by (rule vote_steps_new[OF d cnt vt None])
    have users: "map_of ?d (KStr ''users'') = Some (PDict ?us)"
      using nu by (simp add: update_conv')
    have c: "count_votes ?us c = count_votes us c + (if vote_type = c then 1 else 0)" for c
      using count_votes_update_new[OF None, of "PStr vote_type" c] by simp
    have counts: "map_of ?d (KStr c) = Some (PInt (int (count_votes ?us c)))" if "c \<in> set choices" for c
      using cnt[OF that] users_not_choice[OF that] by (simp add: update_conv' c)
    have sum: "sum_list (map (count_votes ?us) choices) = length ?us"
      using total vt by (auto simp: c length_update_new[OF None] choices_def)
    have "tally_inv (PDict ?d)" by (rule tally_invI[OF users counts sum])
    moreover have "user_choice (PDict ?d) u = Some (PStr vote_type)"
      using users by (simp add: user_choice_def update_conv')
    ultimately show ?thesis using steps by blast
  next
    case (Some w)
    then have "(KStr u, w) \<in> set us" by (rule map_of_SomeD)
    from sum_counts_all[OF total this] obtain p where p: "p \<in> set choices" and w: "w = PStr p"
      by auto
    have old: "map_of us (KStr u) = Some (PStr p)" using Some w by simp
    let ?n = "(if vote_type = p then int (count_votes us p) - 1 else int (count_votes us vote_type)) + 1"
    let ?d = "AList.update (KStr vote_type) (PInt ?n)
        (AList.update (KStr ''users'') (PDict ?us)
          (AList.update (KStr p) (PInt (int (count_votes us p) - 1)) d))"
    have steps: "vote_steps vd u vote_type = (PDict ?d, None)"
      unfolding vd using vote_steps_old[OF d cnt vt p old] by (simp add: Let_def)
    have users: "map_of ?d (KStr ''users'') = Some (PDict ?us)"
      using nu by (simp add: update_conv')
    have pos: "0 < count_votes us p" by (rule count_votes_pos[OF old])
    have c: "count_votes ?us c + (if p = c then 1 else 0)
               = count_votes us c + (if vote_type = c then 1 else 0)" for c
      using count_votes_update_old[OF old, of "PStr vote_type" c] by simp
    have counts: "map_of ?d (KStr c) = Some (PInt (int (count_votes ?us c)))" if "c \<in> set choices" for c
      using cnt[OF that] users_not_choice[OF that] users_not_choice[OF p] c[of c] pos
      by (auto simp: update_conv')
    have sum: "sum_list (map (count_votes ?us) choices) = length ?us"
      using total vt p c[of "''aye''"] c[of "''nay''"] c[of "''recuse''"] pos
      by (auto simp: length_update_old[OF old] choices_def split: if_splits)
    have "tally_inv (PDict ?d)" by (rule tally_invI[OF users counts sum])
    moreover have "user_choice (PDict ?d) u = Some (PStr vote_type)"
      using users by (simp add: user_choice_def update_conv')
    ultimately show ?thesis using steps by blast
  qed
qed

lemma handle_vote_inv:
  assumes "map_of vc (KStr t) = Some vd" "tally_inv vd" "c \<in> set choices"
  shows "\<exists>d'. handle_vote True t u c (vc, files) =
            (Recorded, (AList.update (KStr t) (PDict d') vc,
                        save_vote_counts (AList.update (KStr t) (PDict d') vc) files))
          \<and> tally_inv (PDict d') \<and> user_choice (PDict d') u = Some (PStr c)"
proof -
  from vote_steps_inv[OF assms(2,3), of u] obtain d' where
    s: "vote_steps vd u c = (PDict d', None)" and i: "tally_inv (PDict d')"
    and uc: "user_choice (PDict d') u = Some (PStr c)" by blast
  have "handle_vote True t u c (vc, files) =
            (Recorded, (AList.update (KStr t) (PDict d') vc,
                        save_vote_counts (AList.update (KStr t) (PDict d') vc) files))"
    using assms(1) s by (simp add: handle_vote_def Let_def)
  with i uc show ?thesis by blast
qed

lemma cast_votes_inv:
  assumes "map_of vc (KStr t) = Some vd" "tally_inv vd" "set cs \<subseteq> set choices"
    "cast_votes t u cs (vc, files) = (rs, (vc', files'))"
  shows "list_all (\<lambda>r. r = Recorded) rs \<and>
         (\<exists>vd'. map_of vc' (KStr t) = Some vd' \<and> tally_inv vd' \<and>
                (cs \<noteq> [] \<longrightarrow> user_choice vd' u = Some (PStr (last cs))))"
  using assms
proof (induction cs arbitrary: vc files vd rs)
  case Nil
  then show ?case by auto
next
  case (Cons c cs)
  from Cons.prems(3) have c: "c \<in> set choices" and cs: "set cs \<subseteq> set choices" by auto
  from handle_vote_inv[OF Cons.prems(1,2) c, of u files] obtain d' where
    h: "handle_vote True t u c (vc, files) =
            (Recorded, (AList.update (KStr t) (PDict d') vc,
                        save_vote_counts (AList.update (KStr t) (PDict d') vc) files))"
    and i: "tally_inv (PDict d')" and uc: "user_choice (PDict d') u = Some (PStr c)" by blast
  let ?vc = "AList.update (KStr t) (PDict d') vc"
  let ?fs = "save_vote_counts ?vc files"
  obtain rs' where r: "cast_votes t u cs (?vc, ?fs) = (rs', (vc', files'))" and rs: "rs = Recorded # rs'"
    using Cons.prems(4) h by (auto split: prod.splits)
  have m: "map_of ?vc (KStr t) = Some (PDict d')" by (simp add: update_conv')
  from Cons.IH[OF m i cs r] have
    ih: "list_all (\<lambda>r. r = Recorded) rs'"
      "\<exists>vd'. map_of vc' (KStr t) = Some vd' \<and> tally_inv vd' \<and>
                (cs \<noteq> [] \<longrightarrow> user_choice vd' u = Some (PStr (last cs)))" by auto
  show ?case
  proof (cases "cs = []")
    case True
    with r have "vc' = ?vc" by simp
    with m i uc ih(1) rs True show ?thesis by simp
  next
    case False
    with ih rs show ?thesis by simp
  qed
qed

text \<open>
  Claim C1. Take a thread whose vote record satisfies the tally invariant, and any sequence
  of votes by one user with choices among aye, nay and recuse. After each vote of the
  sequence (the \<open>n\<close>-th, for every \<open>n\<close>) every vote so far was recorded, the record still
  satisfies the invariant (each tally is the number of users with that choice, and the
  tallies add up to the number of users), and \<open>users[user_id]\<close> is the choice cast last.
\<close>

theorem cast_votes_keep_tally:
  assumes "map_of vote_counts (KStr thread_id) = Some vd"
    and "tally_inv vd"
    and "set cs \<subseteq> set choices"
    and "0 < n" and "n \<le> length cs"
  shows "case cast_votes thread_id user_id (take n cs) (vote_counts, files) of
           (rs, (vc, files')) \<Rightarrow>
             list_all (\<lambda>r. r = Recorded) rs \<and>
             (case map_of vc (KStr thread_id) of
                None \<Rightarrow> False
              | Some vd' \<Rightarrow>
                  tally_inv vd' \<and> user_choice vd' user_id = Some (PStr (cs ! (n - 1))))"
proof -
  obtain rs vc files' where
    c: "cast_votes thread_id user_id (take n cs) (vote_counts, files) = (rs, (vc, files'))"
    by (metis surj_pair)
  have sub: "set (take n cs) \<subseteq> set choices" using assms(3) set_take_subset by fastforce
  have ne: "take n cs \<noteq> []" using assms(4,5) by auto
  have l: "last (take n cs) = cs ! (n - 1)"
    using assms(4,5) ne by (simp add: last_conv_nth min_def)
  from cast_votes_inv[OF assms(1,2) sub c] ne l show ?thesis
    unfolding c by auto
qed

text \<open>
  In the scenario of the specification, user 42 votes aye and then nay on the fresh
  record of thread 100.
\<close>

theorem cast_votes_keep_tally_witness:
  "map_of one_thread (KStr ''100'') = Some (fresh_record 1)
   \<and> tally_inv (fresh_record 1)
   \<and> set [''aye'', ''nay''] \<subseteq> set choices
   \<and> (case cast_votes ''100'' ''42'' (take 2 [''aye'', ''nay'']) (one_thread, Map.empty) of
        (rs, (vc, files')) \<Rightarrow>
          list_all (\<lambda>r. r = Recorded) rs \<and>
          (case map_of vc (KStr ''100'') of
             None \<Rightarrow> False
           | Some vd' \<Rightarrow>
               tally_inv vd' \<and> user_choice vd' ''42'' = Some (PStr ([''aye'', ''nay''] ! (2 - 1)))))"
proof -
  have h1: "map_of one_thread (KStr ''100'') = Some (fresh_record 1)"
    by (simp add: one_thread_def)
  have h2: "tally_inv (fresh_record 1)"
    by (simp add: fresh_record_def tally_inv_def choices_def count_votes_def)
  have h3: "set [''aye'', ''nay''] \<subseteq> set choices"
    by (simp add: choices_def)
  have h4: "0 < (2::nat)" and h5: "2 \<le> length [''aye'', ''nay'']"
    by simp_all
  from cast_votes_keep_tally [OF h1 h2 h3 h4 h5, of "''42''" Map.empty] h1 h2 h3
  show ?thesis by simp
qed

text \<open>
  Claim C2. On a record that satisfies the tally invariant, a user who casts the same
  choice twice in a row changes nothing with the second vote: it is recorded, and it
  leaves the whole state, the tallies of the record with it, as the first vote left it.
\<close>

theorem revote_same_choice_idempotent:
  assumes "map_of vote_counts (KStr thread_id) = Some vd"
    and "tally_inv vd"
    and "c \<in> set choices"
  shows "handle_vote True thread_id user_id c
           (snd (handle_vote True thread_id user_id c (vote_counts, files)))
         = (Recorded, snd (handle_vote True thread_id user_id c (vote_counts, files)))"
proof -
  from handle_vote_inv[OF assms, of user_id files] obtain d1 where
    h: "handle_vote True thread_id user_id c (vote_counts, files) =
            (Recorded, (AList.update (KStr thread_id) (PDict d1) vote_counts,
                        save_vote_counts (AList.update (KStr thread_id) (PDict d1) vote_counts) files))"
    and i: "tally_inv (PDict d1)" and uc: "user_choice (PDict d1) user_id = Some (PStr c)" by blast
  let ?vc = "AList.update (KStr thread_id) (PDict d1) vote_counts"
  let ?fs = "save_vote_counts ?vc files"
  from i obtain us where
    d: "map_of d1 (KStr ''users'') = Some (PDict us)"
    and cnt: "\<And>c. c \<in> set choices \<Longrightarrow> map_of d1 (KStr c) = Some (PInt (int (count_votes us c)))"
    by (rule tally_invE) blast
  have old: "map_of us (KStr user_id) = Some (PStr c)"
    using uc d by (simp add: user_choice_def)
  have u1: "AList.update (KStr user_id) (PStr c) us = us" by (rule update_triv[OF old])
  let ?d = "AList.update (KStr c) (PInt (int (count_votes us c) - 1)) d1"
  have "map_of ?d (KStr ''users'') = Some (PDict us)"
    using d users_not_choice[OF assms(3)] by (simp add: update_conv')
  then have u2: "AList.update (KStr ''users'') (PDict us) ?d = ?d" by (rule update_triv)
  have u3: "AList.update (KStr c) (PInt (int (count_votes us c))) ?d = d1"
    using cnt[OF assms(3)] by (simp add: update_triv)
  have u4: "AList.update (KStr c) (PInt (int (count_votes us c))) d1 = d1"
    using cnt[OF assms(3)] by (rule update_triv)
  have s: "vote_steps (PDict d1) user_id c = (PDict d1, None)"
    using vote_steps_old[OF d cnt assms(3) assms(3) old] by (simp add: Let_def u1 u2 u4)
  have m: "map_of ?vc (KStr thread_id) = Some (PDict d1)" by (simp add: update_conv')
  have "handle_vote True thread_id user_id c (?vc, ?fs) = (Recorded, (?vc, ?fs))"
    using m s by (simp add: handle_vote_def save_vote_counts_def write_json_def write_json_steps_def
        Let_def update_triv)
  with h show ?thesis by simp
qed

theorem revote_same_choice_idempotent_witness:
  "map_of one_thread (KStr ''100'') = Some (fresh_record 1)
   \<and> tally_inv (fresh_record 1)
   \<and> ''aye'' \<in> set choices
   \<and> handle_vote True ''100'' ''42'' ''aye''
         (snd (handle_vote True ''100'' ''42'' ''aye'' (one_thread, Map.empty)))
       = (Recorded, snd (handle_vote True ''100'' ''42'' ''aye'' (one_thread, Map.empty)))"
proof -
  have h1: "map_of one_thread (KStr ''100'') = Some (fresh_record 1)"
    by (simp add: one_thread_def)
  have h2: "tally_inv (fresh_record 1)"
    by (simp add: fresh_record_def tally_inv_def choices_def count_votes_def)
  have h3: "''aye'' \<in> set choices"
    by (simp add: choices_def)
  from revote_same_choice_idempotent [OF h1 h2 h3, of "''42''" Map.empty] h1 h2 h3
  show ?thesis by simp
qed

section \<open>Documents and their JSON texts\<close>

lemma update_append: "map_of d k = None \<Longrightarrow> AList.update k v d = d @ [(k, v)]"
  by (induction d) (auto split: if_splits)

lemma fold_update_distinct:
  "distinct (map fst (acc @ kvs)) \<Longrightarrow> fold (\<lambda>(k, v) d. AList.update k v d) kvs acc = acc @ kvs"
proof (induction kvs arbitrary: acc)
  case Nil
  then show ?case by simp
next
  case (Cons kv kvs)
  obtain k v where kv: "kv = (k, v)" by (cases kv)
  from Cons.prems have "k \<notin> fst ` set acc" by (auto simp: kv)
  then have "map_of acc k = None" by (simp add: map_of_eq_None_iff)
  then have u: "AList.update k v acc = acc @ [(k, v)]" by (rule update_append)
  from Cons.prems have "distinct (map fst ((acc @ [(k, v)]) @ kvs))" by (simp add: kv)
  from Cons.IH[OF this] show ?case by (simp add: kv u)
qed

lemma dict_of_pairs_id: "distinct (map fst kvs) \<Longrightarrow> dict_of_pairs kvs = kvs"
  using fold_update_distinct[of "[]" kvs] by (simp add: dict_of_pairs_def)

lemma set_update_subset: "set (AList.update k v d) \<subseteq> insert (k, v) (set d)"
  by (induction d) auto

lemma fold_update_set:
  "set (fold (\<lambda>(k, v) d. AList.update k v d) kvs acc) \<subseteq> set acc \<union> set kvs"
proof (induction kvs arbitrary: acc)
  case Nil
  then show ?case by simp
next
  case (Cons kv kvs)
  obtain k v where kv: "kv = (k, v)" by (cases kv)
  show ?case using Cons.IH[of "AList.update k v acc"] set_update_subset[of k v acc]
    by (auto simp: kv)
qed

lemma fold_update_keys_distinct:
  "distinct (map fst acc) \<Longrightarrow> distinct (map fst (fold (\<lambda>(k, v) d. AList.update k v d) kvs acc))"
proof (induction kvs arbitrary: acc)
  case Nil
  then show ?case by simp
next
  case (Cons kv kvs)
  obtain k v where kv: "kv = (k, v)" by (cases kv)
  show ?case using Cons.IH[OF distinct_update[OF Cons.prems, of k v]] by (simp add: kv)
qed

lemma dict_of_pairs_set: "set (dict_of_pairs kvs) \<subseteq> set kvs"
  using fold_update_set[of kvs "[]"] by (simp add: dict_of_pairs_def)

lemma dict_of_pairs_distinct: "distinct (map fst (dict_of_pairs kvs))"
  using fold_update_keys_distinct[of "[]" kvs] by (simp add: dict_of_pairs_def)

lemma json_round_trip: "str_keyed doc \<Longrightarrow> json_load (json_dump doc) = doc"
proof (induction doc)
  case (PList xs)
  then have "map (json_load \<circ> json_dump) xs = xs"
    by (intro map_idI) (auto simp: list_all_iff)
  then show ?case by simp
next
  case (PDict kvs)
  have "(case kv of (k, v) \<Rightarrow> (KStr (key_str k), json_load (json_dump v))) = kv"
    if "kv \<in> set kvs" for kv
  proof -
    obtain k v where kv: "kv = (k, v)" by (cases kv)
    from PDict.prems that have k: "is_KStr k" and v: "str_keyed v"
      by (auto simp: list_all_iff kv)
    from k have "KStr (key_str k) = k" by (cases k) auto
    moreover have "json_load (json_dump v) = v"
      using PDict.IH[of kv v] that v by (simp add: kv)
    ultimately show ?thesis by (simp add: kv)
  qed
  then have "map (\<lambda>kv. case kv of (k, v) \<Rightarrow> (KStr (key_str k), json_load (json_dump v))) kvs = kvs"
    by (intro map_idI)
  moreover from PDict.prems have "distinct (map fst kvs)" by simp
  ultimately show ?case
    by (simp add: o_def case_prod_unfold dict_of_pairs_id)
qed simp_all

lemma str_keyed_json_load: "str_keyed (json_load j)"
proof (induction j)
  case (JArray xs)
  then show ?case by (simp add: list_all_iff)
next
  case (JObject kvs)
  let ?kvs = "map (\<lambda>(k, v). (KStr k, json_load v)) kvs"
  have "is_KStr (fst kv) \<and> str_keyed (snd kv)" if "kv \<in> set ?kvs" for kv
    using that JObject.IH by (auto simp: image_iff)
  with dict_of_pairs_set[of ?kvs] have "list_all (\<lambda>kv. is_KStr (fst kv) \<and> str_keyed (snd kv)) (dict_of_pairs ?kvs)"
    unfolding list_all_iff by blast
  then show ?case by (simp add: dict_of_pairs_distinct)
qed simp_all

lemma read_write_json:
  "str_keyed doc \<Longrightarrow> read_json (write_json files path doc) path = Inr doc"
  by (simp add: read_json_def write_json_def write_json_steps_def json_round_trip)

lemma read_write_json_other:
  "p \<noteq> path \<Longrightarrow> read_json (write_json files path doc) p = read_json files p"
  by (simp add: read_json_def write_json_def write_json_steps_def)

section \<open>Loading\<close>

text \<open>
  Claim C8, as the code has it. \<open>load_vote_counts\<close> returns the parsed document when the
  file holds a JSON text, the empty document when the file does not exist, and fails with
  the decoding error when the content is malformed. \<open>_load_cache\<close> does the same for a
  JSON text and for a missing file, but on malformed content it returns the empty
  document.
\<close>

theorem load_parsed_empty_or_error:
  "(files vote_counts_file = Some (Text j) \<longrightarrow> load_vote_counts files = Inr (json_load j))
   \<and> (files vote_counts_file = None \<longrightarrow> load_vote_counts files = Inr (PDict []))
   \<and> (files vote_counts_file = Some Garbage \<or> files vote_counts_file = Some Empty
        \<longrightarrow> load_vote_counts files = Inl JSONDecodeError)
   \<and> (files cache_file = Some (Text j') \<longrightarrow> load_cache files = Inr (json_load j'))
   \<and> (files cache_file = None \<longrightarrow> load_cache files = Inr (PDict []))
   \<and> (files cache_file = Some Garbage \<or> files cache_file = Some Empty
        \<longrightarrow> load_cache files = Inr (PDict []))"
  by (auto simp: load_vote_counts_def load_cache_def read_json_def)

theorem load_parsed_empty_or_error_witness:
  "load_vote_counts (Map.empty(vote_counts_file \<mapsto> Text (JObject [(''100'', JNull)])))
     = Inr (PDict [(KStr ''100'', PNone)])
   \<and> load_vote_counts Map.empty = Inr (PDict [])
   \<and> load_vote_counts (Map.empty(vote_counts_file \<mapsto> Garbage)) = Inl JSONDecodeError
   \<and> load_cache (Map.empty(cache_file \<mapsto> Text (JObject [(''1'', JNull)])))
     = Inr (PDict [(KStr ''1'', PNone)])
   \<and> load_cache Map.empty = Inr (PDict [])
   \<and> load_cache (Map.empty(cache_file \<mapsto> Empty)) = Inr (PDict [])"
  using
    load_parsed_empty_or_error [of "Map.empty(vote_counts_file \<mapsto> Text (JObject [(''100'', JNull)]))"
      "JObject [(''100'', JNull)]" JNull]
    load_parsed_empty_or_error [of Map.empty JNull JNull]
    load_parsed_empty_or_error [of "Map.empty(vote_counts_file \<mapsto> Garbage)" JNull JNull]
    load_parsed_empty_or_error [of "Map.empty(cache_file \<mapsto> Text (JObject [(''1'', JNull)]))"
      JNull "JObject [(''1'', JNull)]"]
    load_parsed_empty_or_error [of "Map.empty(cache_file \<mapsto> Empty)" JNull JNull]
  by (simp add: dict_of_pairs_def)

text \<open>
  Against claim C8 as stated: on a malformed cache file \<open>_load_cache\<close> does not fail, it
  returns the empty document.
\<close>

theorem load_cache_malformed_counterexample:
  "load_cache (Map.empty(cache_file \<mapsto> Garbage)) = Inr (PDict [])"
  by (simp add: load_cache_def read_json_def)

section \<open>Saving and loading\<close>

text \<open>
  Claim C9, as the code has it. A document whose dictionaries have string keys only, at
  every depth, is loaded back as it was saved: the proposal cache through \<open>_save_cache\<close>
  and \<open>_load_cache\<close>, the vote counts through \<open>save_vote_counts\<close> and \<open>load_vote_counts\<close>.
\<close>

theorem save_load_round_trip:
  assumes "str_keyed doc" and "str_keyed (PDict vote_counts)"
  shows "load_cache (save_cache files doc) = Inr doc
         \<and> load_vote_counts (save_vote_counts vote_counts files) = Inr (PDict vote_counts)"
proof -
  have "read_json (save_cache files doc) cache_file = Inr doc"
    unfolding save_cache_def by (rule read_write_json[OF assms(1)])
  moreover have "save_cache files doc cache_file \<noteq> None"
    by (simp add: save_cache_def write_json_def write_json_steps_def)
  ultimately have "load_cache (save_cache files doc) = Inr doc"
    by (simp add: load_cache_def)
  moreover have "read_json (save_vote_counts vote_counts files) vote_counts_file = Inr (PDict vote_counts)"
    unfolding save_vote_counts_def by (rule read_write_json[OF assms(2)])
  then have "load_vote_counts (save_vote_counts vote_counts files) = Inr (PDict vote_counts)"
    by (simp add: load_vote_counts_def)
  ultimately show ?thesis by simp
qed

theorem save_load_round_trip_witness:
  "str_keyed stored_cache \<and> str_keyed (PDict one_thread)
   \<and> load_cache (save_cache Map.empty stored_cache) = Inr stored_cache
   \<and> load_vote_counts (save_vote_counts one_thread Map.empty) = Inr (PDict one_thread)"
proof -
  have h1: "str_keyed stored_cache"
    by (simp add: stored_cache_def cache_entry_def)
  have h2: "str_keyed (PDict one_thread)"
    by (simp add: one_thread_def fresh_record_def)
  from save_load_round_trip [OF h1 h2, of Map.empty] h1 h2
  show ?thesis by simp
qed

text \<open>
  Against claim C9 as stated: the cache that discovery builds in memory has the integer
  ids for keys; saved and loaded, it comes back with the strings \<open>"1"\<close> and \<open>"2"\<close> for keys.
\<close>

theorem save_load_int_keys_counterexample:
  "discover example_clock two_active Map.empty = Inr ([1, 2], discovered_cache)
   \<and> load_cache (save_cache Map.empty discovered_cache) = Inr stored_cache
   \<and> stored_cache \<noteq> discovered_cache"
  by code_simp

section \<open>Discovery\<close>

text \<open>
  Claim C3 does not hold of the code. With proposals 1 and 2 active and no cache file, the
  first call of \<open>monitor_new_proposals\<close> returns both ids and saves the cache, and the second
  call with the same active set returns both ids again: the cache is read back with string
  keys, which the integer ids never equal.
\<close>

theorem discovery_twice_returns_ids_again:
  "fst (monitor_new_proposals example_clock two_active Map.empty) = [1, 2]
   \<and> fst (monitor_new_proposals example_clock two_active
            (snd (monitor_new_proposals example_clock two_active Map.empty))) = [1, 2]"
  by code_simp

section \<open>Archiving and the two documents\<close>

lemma fold_delete_filter:
  "fold AList.delete ks vc = filter (\<lambda>kv. fst kv \<notin> set ks) vc"
proof (induction ks arbitrary: vc)
  case Nil
  then show ?case by simp
next
  case (Cons k ks)
  have "fold AList.delete (k # ks) vc = filter (\<lambda>kv. fst kv \<notin> set ks) (filter (\<lambda>kv. fst kv \<noteq> k) vc)"
    by (simp add: Cons.IH AList.delete_eq case_prod_unfold eq_commute[of k])
  also have "\<dots> = filter (\<lambda>kv. fst kv \<notin> set (k # ks)) vc"
    by (auto intro: filter_cong)
  finally show ?case .
qed

lemma distinct_key_filter:
  assumes "distinct (map fst vc)" "kv \<in> set vc"
  shows "fst kv \<in> fst ` set (filter P vc) \<longleftrightarrow> P kv"
proof
  assume "fst kv \<in> fst ` set (filter P vc)"
  then obtain kv' where kv': "kv' \<in> set vc" "P kv'" "fst kv' = fst kv" by auto
  with assms have "kv' = kv"
    by (metis eq_key_imp_eq_value prod.collapse)
  with kv' show "P kv" by simp
next
  assume "P kv"
  with assms(2) show "fst kv \<in> fst ` set (filter P vc)" by force
qed

lemma remove_retired:
  assumes "distinct (map fst vc)"
  shows "fold AList.delete (map fst (filter P vc)) vc = filter (\<lambda>kv. \<not> P kv) vc"
  unfolding fold_delete_filter
  by (rule filter_cong) (use distinct_key_filter[OF assms] in auto)

lemma archive_loop_lists:
  assumes "archive_loop clock active vc (ths, kr, a, tick) = Inr (ths', kr', a', tick')"
  shows "ths' = ths @ map fst (filter (\<lambda>kv. retired active (snd kv)) vc)
       \<and> kr' = kr @ map fst (filter (\<lambda>kv. retired active (snd kv)) vc)
       \<and> tick' = tick + length (filter (\<lambda>kv. retired active (snd kv)) vc)
       \<and> is_dict a' = is_dict a"
  using assms
proof (induction vc arbitrary: ths kr a tick)
  case Nil
  then show ?case by simp
next
  case (Cons kv vc)
  obtain t r where kv: "kv = (t, r)" by (cases kv)
  from Cons.prems obtain d where r: "r = PDict d"
    by (cases r) (auto simp: kv)
  show ?case
  proof (cases "no_longer_active (index_of d) active")
    case True
    with Cons.prems obtain a1 where s: "py_setitem a t (archived_entry d (clock tick)) = Inr a1"
      and l: "archive_loop clock active vc (ths @ [t], kr @ [t], a1, tick + 1) = Inr (ths', kr', a', tick')"
      by (auto simp: kv r split: sum.splits)
    from s have "is_dict a1 = is_dict a"
      by (cases a; cases t) (auto simp: list_setitem_def Let_def split: if_splits)
    with Cons.IH[OF l] True show ?thesis by (simp add: kv r retired_def)
  next
    case False
    with Cons.prems have "archive_loop clock active vc (ths, kr, a, tick) = Inr (ths', kr', a', tick')"
      by (simp add: kv r)
    from Cons.IH[OF this] False show ?thesis by (simp add: kv r retired_def)
  qed
qed

lemma archive_loop_archive:
  assumes "archive_loop clock active vc (ths, kr, PDict ar, tick) = Inr (ths', kr', a', tick')"
    and "distinct (map fst vc)" and "\<forall>kv \<in> set vc. is_KStr (fst kv)"
  shows "\<exists>ar'. a' = PDict ar'
      \<and> (\<forall>t. t \<notin> fst ` set (filter (\<lambda>kv. retired active (snd kv)) vc) \<longrightarrow> map_of ar' t = map_of ar t)
      \<and> (\<forall>k < length (filter (\<lambda>kv. retired active (snd kv)) vc).
            map_of ar' (fst (filter (\<lambda>kv. retired active (snd kv)) vc ! k))
              = stamped (snd (filter (\<lambda>kv. retired active (snd kv)) vc ! k)) (clock (tick + k)))"
  using assms
proof (induction vc arbitrary: ths kr ar tick)
  case Nil
  then show ?case by auto
next
  case (Cons kv vc)
  let ?R = "filter (\<lambda>kv. retired active (snd kv)) vc"
  obtain t r where kv: "kv = (t, r)" by (cases kv)
  from Cons.prems obtain d where r: "r = PDict d"
    by (cases r) (auto simp: kv)
  from Cons.prems(2) have dist: "distinct (map fst vc)" and t: "t \<notin> fst ` set vc"
    by (auto simp: kv)
  from Cons.prems(3) have keys: "\<forall>kv \<in> set vc. is_KStr (fst kv)" and tk: "is_KStr t"
    by (simp_all add: kv)
  show ?case
  proof (cases "no_longer_active (index_of d) active")
    case True
    let ?e = "archived_entry d (clock tick)"
    from True Cons.prems(1) have
      l: "archive_loop clock active vc (ths @ [t], kr @ [t], PDict (AList.update t ?e ar), tick + 1)
            = Inr (ths', kr', a', tick')"
      by (simp add: kv r stored_key_is_KStr[OF tk])
    from Cons.IH[OF l dist keys] obtain ar' where a': "a' = PDict ar'"
      and other: "\<And>t'. t' \<notin> fst ` set ?R \<Longrightarrow> map_of ar' t' = map_of (AList.update t ?e ar) t'"
      and st: "\<And>k. k < length ?R \<Longrightarrow>
            map_of ar' (fst (?R ! k)) = stamped (snd (?R ! k)) (clock (tick + 1 + k))"
      by blast
    have R: "filter (\<lambda>kv. retired active (snd kv)) (kv # vc) = (t, r) # ?R"
      using True by (simp add: kv r retired_def)
    have tR: "t \<notin> fst ` set ?R" using t by auto
    have 0: "map_of ar' t = stamped r (clock tick)"
      using other[OF tR] by (simp add: update_conv' r stamped_def)
    have "map_of ar' (fst (((t, r) # ?R) ! k)) = stamped (snd (((t, r) # ?R) ! k)) (clock (tick + k))"
      if "k < length ((t, r) # ?R)" for k
    proof (cases k)
      case 0
      then show ?thesis using \<open>map_of ar' t = stamped r (clock tick)\<close> by simp
    next
      case (Suc k')
      with that st[of k'] show ?thesis by simp
    qed
    moreover have "map_of ar' t' = map_of ar t'" if "t' \<notin> fst ` set ((t, r) # ?R)" for t'
      using that other[of t'] by (simp add: update_conv')
    ultimately show ?thesis unfolding R using a' by blast
  next
    case False
    with Cons.prems(1) have
      l: "archive_loop clock active vc (ths, kr, PDict ar, tick) = Inr (ths', kr', a', tick')"
      by (simp add: kv r)
    have R: "filter (\<lambda>kv. retired active (snd kv)) (kv # vc) = ?R"
      using False by (simp add: kv r retired_def)
    from Cons.IH[OF l dist keys] show ?thesis unfolding R .
  qed
qed

lemma str_keyed_PDict:
  "str_keyed (PDict d) \<longleftrightarrow>
     (\<forall>kv \<in> set d. is_KStr (fst kv) \<and> str_keyed (snd kv)) \<and> distinct (map fst d)"
  by (simp add: list_all_iff)

lemma str_keyed_update:
  assumes "str_keyed (PDict d)" "is_KStr k" "str_keyed v"
  shows "str_keyed (PDict (AList.update k v d))"
  unfolding str_keyed_PDict
proof
  show "\<forall>kv \<in> set (AList.update k v d). is_KStr (fst kv) \<and> str_keyed (snd kv)"
    using assms set_update_subset[of k v d] unfolding str_keyed_PDict by auto
  show "distinct (map fst (AList.update k v d))"
    using assms(1) unfolding str_keyed_PDict by (simp add: distinct_update)
qed

lemma str_keyed_filter:
  "str_keyed (PDict d) \<Longrightarrow> str_keyed (PDict (filter P d))"
  unfolding str_keyed_PDict by (simp add: distinct_map_filter)

lemma str_keyed_archived_entry:
  "str_keyed (PDict d) \<Longrightarrow> str_keyed (archived_entry d now)"
  unfolding archived_entry_def by (intro str_keyed_update) simp_all

lemma str_keyed_read_json: "read_json files p = Inr doc \<Longrightarrow> str_keyed doc"
  by (auto simp: read_json_def str_keyed_json_load split: option.splits content.splits)

lemma str_keyed_load_archive: "load_archive files p = Inr doc \<Longrightarrow> str_keyed doc"
  by (auto simp: load_archive_def dest: str_keyed_read_json split: if_splits)

lemma archive_loop_str_keyed:
  assumes "archive_loop clock active vc (ths, kr, a, tick) = Inr (ths', kr', a', tick')"
    and "str_keyed a" and "str_keyed (PDict vc)"
  shows "str_keyed a'"
  using assms
proof (induction vc arbitrary: ths kr a tick)
  case Nil
  then show ?case by simp
next
  case (Cons kv vc)
  obtain t r where kv: "kv = (t, r)" by (cases kv)
  from Cons.prems(1) obtain d where r: "r = PDict d"
    by (cases r) (auto simp: kv)
  from Cons.prems(3) have vc: "str_keyed (PDict vc)" and t: "is_KStr t" and d: "str_keyed (PDict d)"
    by (simp_all add: kv r)
  show ?case
  proof (cases "no_longer_active (index_of d) active")
    case True
    with Cons.prems(1) obtain a1 where s: "py_setitem a t (archived_entry d (clock tick)) = Inr a1"
      and l: "archive_loop clock active vc (ths @ [t], kr @ [t], a1, tick + 1) = Inr (ths', kr', a', tick')"
      by (auto simp: kv r split: sum.splits)
    from s t obtain ar where a: "a = PDict ar" and a1: "a1 = PDict (AList.update t (archived_entry d (clock tick)) ar)"
      by (cases a; cases t) auto
    have "str_keyed a1"
      unfolding a1 using Cons.prems(2) t str_keyed_archived_entry[OF d]
      unfolding a by (rule str_keyed_update)
    from Cons.IH[OF l this vc] show ?thesis .
  next
    case False
    with Cons.prems(1) have "archive_loop clock active vc (ths, kr, a, tick) = Inr (ths', kr', a', tick')"
      by (simp add: kv r)
    from Cons.IH[OF this Cons.prems(2) vc] show ?thesis .
  qed
qed

lemma archive_loop_succeeds:
  assumes "list_all (\<lambda>kv. is_dict (snd kv)) vc"
  shows "\<exists>res. archive_loop clock active vc (ths, kr, PDict ar, tick) = Inr res"
  using assms
proof (induction vc arbitrary: ths kr ar tick)
  case Nil
  then show ?case by simp
next
  case (Cons kv vc)
  obtain t r where kv: "kv = (t, r)" by (cases kv)
  from Cons.prems obtain d where r: "r = PDict d" and vc: "list_all (\<lambda>kv. is_dict (snd kv)) vc"
    by (cases r) (auto simp: kv)
  show ?case using Cons.IH[OF vc] by (simp add: kv r)
qed

text \<open>What the function has computed when it reaches the two writes.\<close>

lemma archive_plan_Inr:
  assumes plan: "archive_plan clock jp active ap files = Inr (threads, vote_counts', archived')"
    and read: "read_json files jp = Inr (PDict vc)"
  shows "threads = map fst (filter (\<lambda>kv. retired active (snd kv)) vc)"
    and "vote_counts' = PDict (filter (\<lambda>kv. \<not> retired active (snd kv)) vc)"
    and "str_keyed vote_counts'" and "str_keyed archived'"
    and "\<exists>a. load_archive files ap = Inr a \<and> is_dict archived' = is_dict a"
    and "\<And>ar. load_archive files ap = Inr (PDict ar) \<Longrightarrow>
          \<exists>ar'. archived' = PDict ar'
           \<and> (\<forall>t. t \<notin> set threads \<longrightarrow> map_of ar' t = map_of ar t)
           \<and> (\<forall>k < length threads.
                 map_of ar' (threads ! k)
                   = stamped (snd (filter (\<lambda>kv. retired active (snd kv)) vc ! k)) (clock k))"
proof -
  let ?R = "filter (\<lambda>kv. retired active (snd kv)) vc"
  from plan read obtain a kr tick where la: "load_archive files ap = Inr a"
    and loop: "archive_loop clock active vc ([], [], a, 0) = Inr (threads, kr, archived', tick)"
    and vc': "vote_counts' = PDict (fold AList.delete kr vc)"
    by (auto simp: archive_plan_def split: sum.splits prod.splits)
  from archive_loop_lists[OF loop] have th: "threads = map fst ?R" and kr: "kr = map fst ?R"
    and dict: "is_dict archived' = is_dict a" by simp_all
  have sk: "str_keyed (PDict vc)" by (rule str_keyed_read_json[OF read])
  then have dist: "distinct (map fst vc)" by (simp add: str_keyed_PDict)
  show "threads = map fst ?R" by (rule th)
  show v: "vote_counts' = PDict (filter (\<lambda>kv. \<not> retired active (snd kv)) vc)"
    unfolding vc' kr by (simp add: remove_retired[OF dist])
  show "str_keyed vote_counts'" unfolding v by (rule str_keyed_filter[OF sk])
  show "str_keyed archived'"
    by (rule archive_loop_str_keyed[OF loop str_keyed_load_archive[OF la] sk])
  show "\<exists>a. load_archive files ap = Inr a \<and> is_dict archived' = is_dict a"
    using la dict by blast
  fix ar assume "load_archive files ap = Inr (PDict ar)"
  with la have a: "a = PDict ar" by simp
  from sk have keys: "\<forall>kv \<in> set vc. is_KStr (fst kv)" by (simp add: list_all_iff)
  from archive_loop_archive[OF loop[unfolded a] dist keys] obtain ar' where
    "archived' = PDict ar'"
    "\<forall>t. t \<notin> fst ` set ?R \<longrightarrow> map_of ar' t = map_of ar t"
    "\<forall>k < length ?R. map_of ar' (fst (?R ! k)) = stamped (snd (?R ! k)) (clock (0 + k))"
    by blast
  then show "\<exists>ar'. archived' = PDict ar'
           \<and> (\<forall>t. t \<notin> set threads \<longrightarrow> map_of ar' t = map_of ar t)
           \<and> (\<forall>k < length threads.
                 map_of ar' (threads ! k) = stamped (snd (?R ! k)) (clock k))"
    unfolding th by (intro exI[of _ ar']) simp
qed

lemma archive_plan_succeeds:
  assumes "read_json files jp = Inr (PDict vc)"
    and "list_all (\<lambda>kv. is_dict (snd kv)) vc"
    and "load_archive files ap = Inr (PDict ar)"
  shows "\<exists>res. archive_plan clock jp active ap files = Inr res"
proof -
  from archive_loop_succeeds[OF assms(2), of clock active "[]" "[]" ar 0]
  obtain res where "archive_loop clock active vc ([], [], PDict ar, 0) = Inr res" by blast
  then show ?thesis using assms(1,3)
    by (cases res) (auto simp: archive_plan_def)
qed

lemma retired_int_index:
  "map_of d (KStr ''index'') = Some (PInt i) \<Longrightarrow> retired active (PDict d) \<longleftrightarrow> i \<notin> set active"
  by (auto simp: retired_def index_of_def no_longer_active_def list_ex_iff)

lemma final_files:
  assumes "archive_plan clock jp active ap files = Inr (threads, vote_counts', archived')"
  shows "archive_steps clock jp active ap files =
           (threads, [files(jp \<mapsto> Empty), write_json files jp vote_counts',
                      (write_json files jp vote_counts')(ap \<mapsto> Empty),
                      write_json (write_json files jp vote_counts') ap archived'])"
    and "delete_executed_keys_and_archive clock jp active ap files =
           (threads, write_json (write_json files jp vote_counts') ap archived')"
  using assms
  by (simp_all add: delete_executed_keys_and_archive_def archive_steps_def write_json_steps_def
      write_json_def)

lemma load_archive_written:
  "str_keyed a \<Longrightarrow> load_archive (write_json files ap a) ap = Inr a"
  by (simp add: load_archive_def read_write_json) (simp add: write_json_def write_json_steps_def)

lemma archived_entry_fields:
  assumes "archived_entry d now = PDict e"
  shows "map_of e (KStr ''archived_at'') = Some (PStr now)"
    and "map_of e (KStr ''final_status'') = Some (PStr ''completed'')"
    and "key \<noteq> KStr ''archived_at'' \<Longrightarrow> key \<noteq> KStr ''final_status'' \<Longrightarrow> map_of e key = map_of d key"
  using assms by (auto simp: archived_entry_def update_conv')

lemma retired_is_dict: "retired active r \<Longrightarrow> \<exists>d. r = PDict d"
  by (cases r) (simp_all add: retired_def)

text \<open>
  Claim C4. Let the vote-count file hold a document whose records are dictionaries, and
  let the archive file be absent or hold a dictionary. Then
  \<open>delete_executed_keys_and_archive\<close> returns exactly the thread ids of the retired records,
  in the order of the document, where a record with an integer index is retired exactly
  when that index is not in the active set. The vote-count file afterwards holds the other
  records, unchanged and in their order. For the \<open>k\<close>-th retired record the archive file
  holds, under its thread id, a dictionary with \<open>archived_at\<close> the \<open>k\<close>-th reading of the
  clock, \<open>final_status\<close> the string \<open>completed\<close>, and every other field as the record has
  it. Every other entry of the archive is as it was.
\<close>

theorem reconcile_retires_exactly_inactive:
  assumes "read_json files json_file_path = Inr (PDict vote_counts)"
    and "list_all (\<lambda>kv. is_dict (snd kv)) vote_counts"
    and "load_archive files archive_filename = Inr (PDict archived)"
    and "json_file_path \<noteq> archive_filename"
  shows "case delete_executed_keys_and_archive clock json_file_path active archive_filename files of
           (threads, files') \<Rightarrow>
             threads = map fst (filter (\<lambda>kv. retired active (snd kv)) vote_counts)
             \<and> (\<forall>kv \<in> set vote_counts. \<forall>d i.
                   snd kv = PDict d \<and> map_of d (KStr ''index'') = Some (PInt i)
                   \<longrightarrow> (retired active (snd kv) \<longleftrightarrow> i \<notin> set active))
             \<and> read_json files' json_file_path
                 = Inr (PDict (filter (\<lambda>kv. \<not> retired active (snd kv)) vote_counts))
             \<and> (\<forall>k < length threads.
                   case (snd (filter (\<lambda>kv. retired active (snd kv)) vote_counts ! k),
                         archived_record files' archive_filename (threads ! k)) of
                     (PDict d, Some (PDict e)) \<Rightarrow>
                       map_of e (KStr ''archived_at'') = Some (PStr (clock k))
                       \<and> map_of e (KStr ''final_status'') = Some (PStr ''completed'')
                       \<and> (\<forall>key. key \<noteq> KStr ''archived_at'' \<and> key \<noteq> KStr ''final_status''
                             \<longrightarrow> map_of e key = map_of d key)
                   | _ \<Rightarrow> False)
             \<and> (\<forall>t. t \<notin> set threads \<longrightarrow>
                   archived_record files' archive_filename t
                     = archived_record files archive_filename t)"
proof -
  let ?R = "filter (\<lambda>kv. retired active (snd kv)) vote_counts"
  from archive_plan_succeeds[OF assms(1,2,3)] obtain threads vc' a' where
    plan: "archive_plan clock json_file_path active archive_filename files = Inr (threads, vc', a')"
    by (metis prod_cases3)
  note p = archive_plan_Inr[OF plan assms(1)]
  from p(6)[OF assms(3)] obtain ar' where a': "a' = PDict ar'"
    and other: "\<And>t. t \<notin> set threads \<Longrightarrow> map_of ar' t = map_of archived t"
    and st: "\<And>k. k < length threads \<Longrightarrow> map_of ar' (threads ! k)
        = stamped (snd (?R ! k)) (clock k)"
    by blast
  let ?files = "write_json (write_json files json_file_path vc') archive_filename a'"
  have live: "read_json ?files json_file_path = Inr vc'"
    using assms(4) p(3) by (simp add: read_write_json_other read_write_json)
  have new: "archived_record ?files archive_filename t = map_of ar' t" for t
    using load_archive_written[OF p(4)] by (simp add: archived_record_def a')
  have old: "archived_record files archive_filename t = map_of archived t" for t
    using assms(3) by (simp add: archived_record_def)
  have idx: "\<forall>kv \<in> set vote_counts. \<forall>d i.
      snd kv = PDict d \<and> map_of d (KStr ''index'') = Some (PInt i)
      \<longrightarrow> (retired active (snd kv) \<longleftrightarrow> i \<notin> set active)"
    by (auto simp: retired_int_index)
  have entry: "case (snd (?R ! k), archived_record ?files archive_filename (threads ! k)) of
        (PDict d, Some (PDict e)) \<Rightarrow>
          map_of e (KStr ''archived_at'') = Some (PStr (clock k))
          \<and> map_of e (KStr ''final_status'') = Some (PStr ''completed'')
          \<and> (\<forall>key. key \<noteq> KStr ''archived_at'' \<and> key \<noteq> KStr ''final_status''
                \<longrightarrow> map_of e key = map_of d key)
      | _ \<Rightarrow> False"
    if k: "k < length threads" for k
  proof -
    from k have "k < length ?R" unfolding p(1) by simp
    then have "?R ! k \<in> set ?R" by (rule nth_mem)
    then have "retired active (snd (?R ! k))" by simp
    then obtain d where d: "snd (?R ! k) = PDict d" using retired_is_dict by blast
    obtain e where e: "archived_entry d (clock k) = PDict e" by (simp add: archived_entry_def)
    have "archived_record ?files archive_filename (threads ! k) = Some (PDict e)"
      using st[OF k] by (simp add: new d stamped_def e)
    then show ?thesis
      using archived_entry_fields[OF e] by (simp add: d)
  qed
  have main: "threads = map fst ?R
      \<and> (\<forall>kv \<in> set vote_counts. \<forall>d i.
            snd kv = PDict d \<and> map_of d (KStr ''index'') = Some (PInt i)
            \<longrightarrow> (retired active (snd kv) \<longleftrightarrow> i \<notin> set active))
      \<and> read_json ?files json_file_path
          = Inr (PDict (filter (\<lambda>kv. \<not> retired active (snd kv)) vote_counts))
      \<and> (\<forall>k < length threads.
            case (snd (?R ! k), archived_record ?files archive_filename (threads ! k)) of
              (PDict d, Some (PDict e)) \<Rightarrow>
                map_of e (KStr ''archived_at'') = Some (PStr (clock k))
                \<and> map_of e (KStr ''final_status'') = Some (PStr ''completed'')
                \<and> (\<forall>key. key \<noteq> KStr ''archived_at'' \<and> key \<noteq> KStr ''final_status''
                      \<longrightarrow> map_of e key = map_of d key)
            | _ \<Rightarrow> False)
      \<and> (\<forall>t. t \<notin> set threads \<longrightarrow>
            archived_record ?files archive_filename t = archived_record files archive_filename t)"
  proof (intro conjI)
    show "threads = map fst ?R" by (rule p(1))
    show "\<forall>kv \<in> set vote_counts. \<forall>d i.
        snd kv = PDict d \<and> map_of d (KStr ''index'') = Some (PInt i)
        \<longrightarrow> (retired active (snd kv) \<longleftrightarrow> i \<notin> set active)"
      by (rule idx)
    show "read_json ?files json_file_path
        = Inr (PDict (filter (\<lambda>kv. \<not> retired active (snd kv)) vote_counts))"
      using live by (simp only: p(2))
    show "\<forall>k < length threads.
        case (snd (?R ! k), archived_record ?files archive_filename (threads ! k)) of
          (PDict d, Some (PDict e)) \<Rightarrow>
            map_of e (KStr ''archived_at'') = Some (PStr (clock k))
            \<and> map_of e (KStr ''final_status'') = Some (PStr ''completed'')
            \<and> (\<forall>key. key \<noteq> KStr ''archived_at'' \<and> key \<noteq> KStr ''final_status''
                  \<longrightarrow> map_of e key = map_of d key)
        | _ \<Rightarrow> False"
      using entry by blast
    show "\<forall>t. t \<notin> set threads \<longrightarrow>
        archived_record ?files archive_filename t = archived_record files archive_filename t"
      using other by (simp only: new old) blast
  qed
  show ?thesis
    unfolding final_files(2)[OF plan] prod.case by (rule main[unfolded prod.case])
qed

text \<open>
  Claim C10. A record of the vote-count file that has no \<open>index\<close>, or the index \<open>null\<close>, is
  not among the thread ids returned, is still in the vote-count file afterwards as it
  was, and the archive has for its thread id what it had before; this for every active
  set, whatever else the two files hold.
\<close>

theorem reconcile_skips_records_without_index:
  assumes "read_json files json_file_path = Inr (PDict vote_counts)"
    and "map_of vote_counts thread_id = Some (PDict d)"
    and "map_of d (KStr ''index'') = None \<or> map_of d (KStr ''index'') = Some PNone"
    and "json_file_path \<noteq> archive_filename"
  shows "case delete_executed_keys_and_archive clock json_file_path active archive_filename files of
           (threads, files') \<Rightarrow>
             thread_id \<notin> set threads
             \<and> live_record files' json_file_path thread_id = Some (PDict d)
             \<and> archived_record files' archive_filename thread_id
                 = archived_record files archive_filename thread_id"
proof (cases "archive_plan clock json_file_path active archive_filename files")
  case (Inl e)
  then have "delete_executed_keys_and_archive clock json_file_path active archive_filename files
      = ([], files)"
    by (simp add: delete_executed_keys_and_archive_def archive_steps_def)
  then show ?thesis using assms(1,2) by (simp add: live_record_def)
next
  case (Inr res)
  then obtain threads vc' a' where
    plan: "archive_plan clock json_file_path active archive_filename files = Inr (threads, vc', a')"
    by (metis prod_cases3)
  note p = archive_plan_Inr[OF plan assms(1)]
  let ?files = "write_json (write_json files json_file_path vc') archive_filename a'"
  have nr: "\<not> retired active (PDict d)"
    using assms(3) by (auto simp: retired_def index_of_def no_longer_active_def)
  have dist: "distinct (map fst vote_counts)"
    using str_keyed_read_json[OF assms(1)] by (simp add: str_keyed_PDict)
  have mem: "(thread_id, PDict d) \<in> set vote_counts" by (rule map_of_SomeD[OF assms(2)])
  have 1: "thread_id \<notin> set threads"
    using distinct_key_filter[OF dist mem, of "\<lambda>kv. retired active (snd kv)"] nr
    unfolding p(1) by simp
  have "read_json ?files json_file_path = Inr vc'"
    using assms(4) p(3) by (simp add: read_write_json_other read_write_json)
  moreover have "map_of (filter (\<lambda>kv. \<not> retired active (snd kv)) vote_counts) thread_id = Some (PDict d)"
    using map_of_filter_in[OF assms(2), of "\<lambda>k v. \<not> retired active v"] nr
    by (simp add: case_prod_unfold)
  ultimately have 2: "live_record ?files json_file_path thread_id = Some (PDict d)"
    by (simp add: live_record_def p(2))
  from p(5) obtain a where la: "load_archive files archive_filename = Inr a"
    and da: "is_dict a' = is_dict a" by blast
  have la': "load_archive ?files archive_filename = Inr a'" by (rule load_archive_written[OF p(4)])
  have 3: "archived_record ?files archive_filename thread_id
      = archived_record files archive_filename thread_id"
  proof (cases a)
    case (PDict ar)
    from p(6)[OF la[unfolded PDict]] 1 obtain ar' where "a' = PDict ar'"
      "map_of ar' thread_id = map_of ar thread_id" by blast
    then show ?thesis using la la' PDict by (simp add: archived_record_def)
  qed (use la la' da in \<open>cases a'; simp add: archived_record_def\<close>)+
  show ?thesis unfolding final_files(2)[OF plan] using 1 2 3 by simp
qed

text \<open>
  Claim C6, as the code has it. The vote-count document, without the retired records, is
  written before the archive document. At the point between the two writes (the second of
  the four states the file system goes through) no retired record is in the vote-count
  file any more, and the archive file is as it was before the call.
\<close>

theorem reconcile_writes_tally_before_archive:
  assumes "read_json files json_file_path = Inr (PDict vote_counts)"
    and "list_all (\<lambda>kv. is_dict (snd kv)) vote_counts"
    and "load_archive files archive_filename = Inr (PDict archived)"
    and "json_file_path \<noteq> archive_filename"
  shows "case archive_steps clock json_file_path active archive_filename files of
           (threads, steps) \<Rightarrow>
             length steps = 4
             \<and> read_json (steps ! 1) json_file_path
                 = Inr (PDict (filter (\<lambda>kv. \<not> retired active (snd kv)) vote_counts))
             \<and> (steps ! 1) archive_filename = files archive_filename
             \<and> (\<forall>t \<in> set threads.
                   live_record (steps ! 1) json_file_path t = None
                   \<and> archived_record (steps ! 1) archive_filename t
                       = archived_record files archive_filename t)"
proof -
  from archive_plan_succeeds[OF assms(1,2,3)] obtain threads vc' a' where
    plan: "archive_plan clock json_file_path active archive_filename files = Inr (threads, vc', a')"
    by (metis prod_cases3)
  note p = archive_plan_Inr[OF plan assms(1)]
  let ?between = "write_json files json_file_path vc'"
  have r: "read_json ?between json_file_path = Inr vc'"
    using p(3) by (simp add: read_write_json)
  have same: "?between archive_filename = files archive_filename"
    using assms(4) by (simp add: write_json_def write_json_steps_def)
  then have ar: "archived_record ?between archive_filename t = archived_record files archive_filename t" for t
    by (simp add: archived_record_def load_archive_def read_json_def)
  have "map_of (filter (\<lambda>kv. \<not> retired active (snd kv)) vote_counts) t = None"
    if "t \<in> set threads" for t
  proof -
    have dist: "distinct (map fst vote_counts)"
      using str_keyed_read_json[OF assms(1)] by (simp add: str_keyed_PDict)
    have "\<not> (\<exists>kv \<in> set vote_counts. \<not> retired active (snd kv) \<and> fst kv = t)"
    proof
      assume "\<exists>kv \<in> set vote_counts. \<not> retired active (snd kv) \<and> fst kv = t"
      then obtain kv where kv: "kv \<in> set vote_counts" "\<not> retired active (snd kv)" "fst kv = t"
        by blast
      from distinct_key_filter[OF dist kv(1), of "\<lambda>kv. retired active (snd kv)"] that kv(2,3)
      show False unfolding p(1) by simp
    qed
    then show ?thesis by (force simp: map_of_eq_None_iff)
  qed
  then have "live_record ?between json_file_path t = None" if "t \<in> set threads" for t
    using that r by (simp add: live_record_def p(2))
  then show ?thesis
    unfolding final_files(1)[OF plan] using r p(2) same ar by simp
qed

text \<open>
  The third scenario of the specification: with only proposal 2 active, thread \<open>100\<close> is
  returned and archived and thread \<open>200\<close> stays.
\<close>

theorem reconcile_retires_exactly_inactive_witness:
  "read_json two_threads_files vote_counts_file = Inr (PDict two_threads)
   \<and> load_archive two_threads_files archive_file = Inr (PDict [])
   \<and> fst (delete_executed_keys_and_archive example_clock vote_counts_file [2] archive_file
            two_threads_files) = [KStr ''100'']
   \<and> read_json (snd (delete_executed_keys_and_archive example_clock vote_counts_file [2]
                       archive_file two_threads_files)) vote_counts_file
       = Inr (PDict [(KStr ''200'', fresh_record 2)])
   \<and> (case archived_record (snd (delete_executed_keys_and_archive example_clock vote_counts_file
                                    [2] archive_file two_threads_files)) archive_file (KStr ''100'') of
         Some (PDict e) \<Rightarrow>
           map_of e (KStr ''archived_at'') = Some (PStr (example_clock 0))
           \<and> map_of e (KStr ''final_status'') = Some (PStr ''completed'')
           \<and> map_of e (KStr ''index'') = Some (PInt 1)
           \<and> map_of e (KStr ''aye'') = Some (PInt 0)
           \<and> map_of e (KStr ''users'') = Some (PDict [])
       | _ \<Rightarrow> False)
   \<and> archived_record (snd (delete_executed_keys_and_archive example_clock vote_counts_file [2]
                             archive_file two_threads_files)) archive_file (KStr ''200'')
       = None"
proof -
  let ?X = "delete_executed_keys_and_archive example_clock vote_counts_file [2] archive_file
              two_threads_files"
  have h1: "read_json two_threads_files vote_counts_file = Inr (PDict two_threads)"
    by (simp add: read_json_def two_threads_files_def two_threads_def fresh_record_def
        dict_of_pairs_def)
  have h2: "list_all (\<lambda>kv. is_dict (snd kv)) two_threads"
    by (simp add: two_threads_def fresh_record_def)
  have h3: "load_archive two_threads_files archive_file = Inr (PDict [])"
    by (simp add: load_archive_def two_threads_files_def archive_file_def vote_counts_file_def)
  have h4: "vote_counts_file \<noteq> archive_file"
    by (simp add: archive_file_def vote_counts_file_def)
  have R: "filter (\<lambda>kv. retired [2] (snd kv)) two_threads = [(KStr ''100'', fresh_record 1)]"
    "filter (\<lambda>kv. \<not> retired [2] (snd kv)) two_threads = [(KStr ''200'', fresh_record 2)]"
    by (simp_all add: two_threads_def fresh_record_def retired_def index_of_def
        no_longer_active_def)
  note w = reconcile_retires_exactly_inactive [where clock = example_clock and active = "[2]",
      OF h1 h2 h3 h4, unfolded case_prod_unfold R]
  note th = w [THEN conjunct1]
  note live = w [THEN conjunct2, THEN conjunct2, THEN conjunct1]
  note stamps = w [THEN conjunct2, THEN conjunct2, THEN conjunct2, THEN conjunct1, rule_format]
  note others = w [THEN conjunct2, THEN conjunct2, THEN conjunct2, THEN conjunct2, rule_format]
  have s0: "case (fresh_record 1, archived_record (snd ?X) archive_file (KStr ''100'')) of
        (PDict d, Some (PDict e)) \<Rightarrow>
          map_of e (KStr ''archived_at'') = Some (PStr (example_clock 0))
          \<and> map_of e (KStr ''final_status'') = Some (PStr ''completed'')
          \<and> (\<forall>key. key \<noteq> KStr ''archived_at'' \<and> key \<noteq> KStr ''final_status''
                \<longrightarrow> map_of e key = map_of d key)
      | _ \<Rightarrow> False"
    using stamps [of 0] by (simp add: th fresh_record_def)
  have entry: "case archived_record (snd ?X) archive_file (KStr ''100'') of
        Some (PDict e) \<Rightarrow>
          map_of e (KStr ''archived_at'') = Some (PStr (example_clock 0))
          \<and> map_of e (KStr ''final_status'') = Some (PStr ''completed'')
          \<and> map_of e (KStr ''index'') = Some (PInt 1)
          \<and> map_of e (KStr ''aye'') = Some (PInt 0)
          \<and> map_of e (KStr ''users'') = Some (PDict [])
      | _ \<Rightarrow> False"
  proof (cases "archived_record (snd ?X) archive_file (KStr ''100'')")
    case None
    with s0 show ?thesis by (simp add: fresh_record_def)
  next
    case (Some v)
    show ?thesis
    proof (cases v)
      case (PDict e)
      from s0 have f: "map_of e (KStr ''archived_at'') = Some (PStr (example_clock 0))"
        "map_of e (KStr ''final_status'') = Some (PStr ''completed'')"
        and g: "\<And>key. key \<noteq> KStr ''archived_at'' \<Longrightarrow> key \<noteq> KStr ''final_status''
          \<Longrightarrow> map_of e key
              = map_of [(KStr ''index'', PInt 1), (KStr ''aye'', PInt 0), (KStr ''nay'', PInt 0),
                        (KStr ''recuse'', PInt 0), (KStr ''users'', PDict [])] key"
        by (simp_all add: Some PDict fresh_record_def)
      from f g [of "KStr ''index''"] g [of "KStr ''aye''"] g [of "KStr ''users''"]
      show ?thesis by (simp add: Some PDict)
    qed (use s0 Some in \<open>simp_all add: fresh_record_def\<close>)
  qed
  have a2: "archived_record (snd ?X) archive_file (KStr ''200'') = None"
    using others [of "KStr ''200''"] h3 by (simp add: th archived_record_def)
  from h1 h3 th live entry a2 show ?thesis by simp
qed

theorem reconcile_skips_records_without_index_witness:
  "read_json no_index_files vote_counts_file = Inr (PDict [(KStr ''300'', PDict no_index_record)])
   \<and> map_of no_index_record (KStr ''index'') = None
   \<and> KStr ''300'' \<notin> set (fst (delete_executed_keys_and_archive example_clock vote_counts_file []
                                  archive_file no_index_files))
   \<and> live_record (snd (delete_executed_keys_and_archive example_clock vote_counts_file []
                         archive_file no_index_files)) vote_counts_file (KStr ''300'')
       = Some (PDict no_index_record)
   \<and> archived_record (snd (delete_executed_keys_and_archive example_clock vote_counts_file []
                             archive_file no_index_files)) archive_file (KStr ''300'')
       = archived_record no_index_files archive_file (KStr ''300'')"
proof -
  have h1: "read_json no_index_files vote_counts_file
      = Inr (PDict [(KStr ''300'', PDict no_index_record)])"
    by (simp add: read_json_def no_index_files_def no_index_record_def dict_of_pairs_def)
  have h2: "map_of [(KStr ''300'', PDict no_index_record)] (KStr ''300'') = Some (PDict no_index_record)"
    by simp
  have h3: "map_of no_index_record (KStr ''index'') = None"
    by (simp add: no_index_record_def)
  have h4: "vote_counts_file \<noteq> archive_file"
    by (simp add: archive_file_def vote_counts_file_def)
  from reconcile_skips_records_without_index [where clock = example_clock and active = "[]",
      OF h1 h2 disjI1 [OF h3] h4]
    h1 h3
  show ?thesis by (simp add: case_prod_unfold)
qed

theorem reconcile_writes_tally_before_archive_witness:
  "read_json two_threads_files vote_counts_file = Inr (PDict two_threads)
   \<and> load_archive two_threads_files archive_file = Inr (PDict [])
   \<and> length (snd (archive_steps example_clock vote_counts_file [2] archive_file two_threads_files)) = 4
   \<and> read_json (snd (archive_steps example_clock vote_counts_file [2] archive_file
                       two_threads_files) ! 1) vote_counts_file
       = Inr (PDict [(KStr ''200'', fresh_record 2)])
   \<and> (snd (archive_steps example_clock vote_counts_file [2] archive_file two_threads_files) ! 1)
        archive_file = two_threads_files archive_file"
proof -
  have h1: "read_json two_threads_files vote_counts_file = Inr (PDict two_threads)"
    by (simp add: read_json_def two_threads_files_def two_threads_def fresh_record_def
        dict_of_pairs_def)
  have h2: "list_all (\<lambda>kv. is_dict (snd kv)) two_threads"
    by (simp add: two_threads_def fresh_record_def)
  have h3: "load_archive two_threads_files archive_file = Inr (PDict [])"
    by (simp add: load_archive_def two_threads_files_def archive_file_def vote_counts_file_def)
  have h4: "vote_counts_file \<noteq> archive_file"
    by (simp add: archive_file_def vote_counts_file_def)
  have R: "filter (\<lambda>kv. \<not> retired [2] (snd kv)) two_threads = [(KStr ''200'', fresh_record 2)]"
    by (simp add: two_threads_def fresh_record_def retired_def index_of_def no_longer_active_def)
  from reconcile_writes_tally_before_archive [where clock = example_clock and active = "[2]",
      OF h1 h2 h3 h4, unfolded case_prod_unfold R] h1 h3
  show ?thesis by simp
qed

text \<open>
  Against claim C6 as stated: in the third scenario, between the two writes the retired
  record of thread \<open>100\<close> is in neither document.
\<close>

theorem reconcile_crash_between_writes_counterexample:
  "fst (archive_steps example_clock vote_counts_file [2] archive_file two_threads_files)
     = [KStr ''100'']
   \<and> live_record (snd (archive_steps example_clock vote_counts_file [2] archive_file
                         two_threads_files) ! 1) vote_counts_file (KStr ''100'') = None
   \<and> archived_record (snd (archive_steps example_clock vote_counts_file [2] archive_file
                             two_threads_files) ! 1) archive_file (KStr ''100'') = None"
  by code_simp

text \<open>
  Claim C5, as the code has it. \<open>save_vote_counts\<close> and \<open>_save_cache\<close> write the file in
  place, with no temporary file and no renaming: right after the file is opened it is
  empty and cannot be loaded, and when the save is complete it holds the whole new
  document.
\<close>

theorem save_writes_in_place:
  "read_json (hd (save_vote_counts_steps vote_counts files)) vote_counts_file = Inl JSONDecodeError
   \<and> last (save_vote_counts_steps vote_counts files) = save_vote_counts vote_counts files
   \<and> save_vote_counts vote_counts files vote_counts_file
       = Some (Text (json_dump (PDict vote_counts)))
   \<and> read_json (hd (save_cache_steps files cache_data)) cache_file = Inl JSONDecodeError
   \<and> last (save_cache_steps files cache_data) = save_cache files cache_data
   \<and> save_cache files cache_data cache_file = Some (Text (json_dump cache_data))"
  by (simp add: save_vote_counts_steps_def save_vote_counts_def save_cache_steps_def save_cache_def
      write_json_steps_def write_json_def read_json_def)

text \<open>
  Against claim C5 as stated: saving over a vote-count file, the file is empty right after
  it is opened, which is neither the old document nor the new one.
\<close>

theorem save_crash_after_open_counterexample:
  "hd (save_vote_counts_steps one_thread two_threads_files) vote_counts_file = Some Empty
   \<and> two_threads_files vote_counts_file = Some (Text (json_dump (PDict two_threads)))
   \<and> Some Empty \<noteq> Some (Text (json_dump (PDict two_threads)))
   \<and> Some Empty \<noteq> Some (Text (json_dump (PDict one_thread)))"
  by (simp add: save_vote_counts_steps_def write_json_steps_def two_threads_files_def)

section \<open>Backup rotation\<close>

lemma is_backup_backup_name: "is_backup (backup_name b ts, m)"
  by (simp add: is_backup_def endswith_def backup_name_def)

lemma backup_name_inj: "backup_name b ts = backup_name b ts' \<longleftrightarrow> ts = ts'"
  by (simp add: backup_name_def)

lemma newest_first_set [simp]: "set (newest_first fs) = set fs"
  by (simp add: newest_first_def)

lemma newest_first_length [simp]: "length (newest_first fs) = length fs"
  by (simp add: newest_first_def)

lemma newest_first_distinct [simp]: "distinct (newest_first fs) = distinct fs"
  by (simp add: newest_first_def)

lemma newest_first_sorted: "sorted (map (\<lambda>f. - snd f) (newest_first fs))"
  by (simp add: newest_first_def)

lemma distinct_names_entries: "distinct (map fst d) \<Longrightarrow> distinct d"
  by (simp add: distinct_map)

lemma same_name_same_file:
  "distinct (map fst d) \<Longrightarrow> f \<in> set d \<Longrightarrow> g \<in> set d \<Longrightarrow> fst f = fst g \<Longrightarrow> f = g"
  by (cases f; cases g) (auto dest: eq_key_imp_eq_value)

text \<open>A listing of a directory has no file twice, and has the same backups.\<close>

lemma listing_distinct:
  assumes "distinct (map fst d)" and "lists_directory listdir d"
  shows "distinct (listdir d)"
proof -
  have "card (set (listdir d)) = card (set d)"
    using assms(2) by (simp add: lists_directory_def)
  also have "\<dots> = length d"
    using distinct_names_entries[OF assms(1)] by (rule distinct_card)
  also have "\<dots> = length (listdir d)"
    using assms(2) by (simp add: lists_directory_def)
  finally show ?thesis by (rule card_distinct)
qed

lemma listing_backups:
  assumes "distinct (map fst d)" and "lists_directory listdir d"
  shows "set (newest_first (filter is_backup (listdir d))) = set (filter is_backup d)"
    and "distinct (newest_first (filter is_backup (listdir d)))"
    and "length (newest_first (filter is_backup (listdir d))) = length (filter is_backup d)"
proof -
  show s: "set (newest_first (filter is_backup (listdir d))) = set (filter is_backup d)"
    using assms(2) by (simp add: lists_directory_def)
  show dl: "distinct (newest_first (filter is_backup (listdir d)))"
    using listing_distinct[OF assms] by simp
  have "length (newest_first (filter is_backup (listdir d)))
      = card (set (newest_first (filter is_backup (listdir d))))"
    using dl by (rule distinct_card[symmetric])
  also have "\<dots> = card (set (filter is_backup d))" by (simp only: s)
  also have "\<dots> = length (filter is_backup d)"
    using distinct_names_entries[OF assms(1)] by (intro distinct_card) simp
  finally show "length (newest_first (filter is_backup (listdir d))) = length (filter is_backup d)" .
qed

text \<open>After the clean-up the directory holds the files that were not among the old ones.\<close>

lemma cleanup_filter:
  assumes "distinct (map fst d)" and "lists_directory listdir d" and "0 \<le> n"
  shows "cleanup_old_backups listdir d n
           = filter (\<lambda>f. f \<notin> set (drop (nat n) (newest_first (filter is_backup (listdir d))))) d"
proof -
  let ?old = "drop (nat n) (newest_first (filter is_backup (listdir d)))"
  have "set ?old \<subseteq> set (newest_first (filter is_backup (listdir d)))"
    by (rule set_drop_subset)
  then have sub: "set ?old \<subseteq> set d"
    unfolding listing_backups(1)[OF assms(1,2)] by auto
  have "fst f \<notin> fst ` set ?old \<longleftrightarrow> f \<notin> set ?old" if fd: "f \<in> set d" for f
  proof -
    have "f \<in> set ?old" if "fst f \<in> fst ` set ?old"
    proof -
      from that obtain g where g: "fst f = fst g" "g \<in> set ?old" by (rule imageE)
      from sub g(2) have "g \<in> set d" by (rule subsetD)
      from same_name_same_file[OF assms(1) fd this g(1)] g(2) show ?thesis by simp
    qed
    moreover have "fst f \<in> fst ` set ?old" if "f \<in> set ?old"
      using that by (rule imageI)
    ultimately show ?thesis by blast
  qed
  then have "filter (\<lambda>f. fst f \<notin> set (map fst ?old)) d = filter (\<lambda>f. f \<notin> set ?old) d"
    by (intro filter_cong) auto
  then show ?thesis
    using assms(3) by (simp add: cleanup_old_backups_def slice_from_def fold_delete_filter Let_def)
qed

lemma cleanup_backups_set:
  assumes "distinct (map fst d)" and "lists_directory listdir d" and "0 \<le> n"
  shows "set (filter is_backup (cleanup_old_backups listdir d n))
           = set (take (nat n) (newest_first (filter is_backup (listdir d))))"
proof -
  let ?S = "newest_first (filter is_backup (listdir d))"
  note dS = listing_backups(2)[OF assms(1,2)]
  have "set (take (nat n) ?S) \<union> set (drop (nat n) ?S) = set ?S"
    by (metis append_take_drop_id set_append)
  moreover have "set (take (nat n) ?S) \<inter> set (drop (nat n) ?S) = {}"
    using dS by (metis append_take_drop_id distinct_append)
  ultimately have "set ?S - set (drop (nat n) ?S) = set (take (nat n) ?S)" by blast
  then have "set (filter is_backup d) - set (drop (nat n) ?S) = set (take (nat n) ?S)"
    by (simp only: listing_backups(1)[OF assms(1,2)])
  then show ?thesis
    unfolding cleanup_filter[OF assms] by auto
qed

lemma cleanup_backups_length:
  assumes "distinct (map fst d)" and "lists_directory listdir d" and "0 \<le> n"
  shows "length (filter is_backup (cleanup_old_backups listdir d n))
           = min (nat n) (length (filter is_backup d))"
proof -
  let ?S = "newest_first (filter is_backup (listdir d))"
  note dS = listing_backups(2)[OF assms(1,2)]
  have "distinct (filter is_backup (cleanup_old_backups listdir d n))"
    unfolding cleanup_filter[OF assms] using distinct_names_entries[OF assms(1)] by simp
  then have "length (filter is_backup (cleanup_old_backups listdir d n))
      = card (set (filter is_backup (cleanup_old_backups listdir d n)))"
    by (rule distinct_card[symmetric])
  also have "\<dots> = card (set (take (nat n) ?S))"
    by (simp only: cleanup_backups_set[OF assms])
  also have "\<dots> = length (take (nat n) ?S)"
    using dS by (intro distinct_card) simp
  also have "\<dots> = min (nat n) (length ?S)"
    by (simp only: length_take min.commute)
  also have "\<dots> = min (nat n) (length (filter is_backup d))"
    by (simp only: listing_backups(3)[OF assms(1,2)])
  finally show ?thesis .
qed

text \<open>A backup that is kept is at least as new as one that is removed.\<close>

lemma cleanup_keeps_newer:
  assumes "distinct (map fst d)" and "lists_directory listdir d" and "0 \<le> n"
    and f: "f \<in> set (filter is_backup (cleanup_old_backups listdir d n))"
    and g: "g \<in> set (filter is_backup d)" "g \<notin> set (cleanup_old_backups listdir d n)"
  shows "snd g \<le> snd f"
proof -
  let ?S = "newest_first (filter is_backup (listdir d))"
  from f have ft: "f \<in> set (take (nat n) ?S)"
    by (simp only: cleanup_backups_set[OF assms(1,2,3)])
  from g have "g \<in> set (drop (nat n) ?S)"
    unfolding cleanup_filter[OF assms(1,2,3)] by auto
  then have gd: "- snd g \<in> set (map (\<lambda>f. - snd f) (drop (nat n) ?S))" by simp
  from ft have fd: "- snd f \<in> set (map (\<lambda>f. - snd f) (take (nat n) ?S))" by simp
  have "sorted (map (\<lambda>f. - snd f) (take (nat n) ?S) @ map (\<lambda>f. - snd f) (drop (nat n) ?S))"
    using newest_first_sorted[of "filter is_backup (listdir d)"]
    by (simp only: map_append[symmetric] append_take_drop_id)
  then have "\<forall>x \<in> set (map (\<lambda>f. - snd f) (take (nat n) ?S)).
      \<forall>y \<in> set (map (\<lambda>f. - snd f) (drop (nat n) ?S)). x \<le> y"
    unfolding sorted_append by (elim conjE)
  with fd gd have "- snd f \<le> - snd g" by blast
  then show ?thesis by simp
qed

lemma cleanup_other_files:
  assumes "distinct (map fst d)" and "lists_directory listdir d" and "0 \<le> n"
  shows "set (filter (\<lambda>f. \<not> is_backup f) (cleanup_old_backups listdir d n))
           = set (filter (\<lambda>f. \<not> is_backup f) d)"
proof -
  have "set (drop (nat n) (newest_first (filter is_backup (listdir d))))
      \<subseteq> set (newest_first (filter is_backup (listdir d)))"
    by (rule set_drop_subset)
  then have "f \<notin> set (drop (nat n) (newest_first (filter is_backup (listdir d))))"
    if "\<not> is_backup f" for f
    using that unfolding listing_backups(1)[OF assms(1,2)] by auto
  then show ?thesis
    unfolding cleanup_filter[OF assms] by auto
qed

lemma cleanup_names:
  assumes "distinct (map fst d)" and "lists_directory listdir d" and "0 \<le> n"
  shows "distinct (map fst (cleanup_old_backups listdir d n))"
    and "set (cleanup_old_backups listdir d n) \<subseteq> set d"
  unfolding cleanup_filter[OF assms] using assms(1) by (auto simp: distinct_map_filter)

text \<open>The newest backup, when it is strictly the newest, is the first after sorting.\<close>

lemma newest_is_kept:
  assumes d: "distinct (map fst d)" and l: "lists_directory listdir d" and n: "0 < n"
    and new: "f \<in> set d" "is_backup f"
    and newer: "\<And>g. g \<in> set d \<Longrightarrow> is_backup g \<Longrightarrow> g \<noteq> f \<Longrightarrow> snd g < snd f"
  shows "f \<in> set (cleanup_old_backups listdir d n)"
proof -
  let ?S = "newest_first (filter is_backup (listdir d))"
  note S = listing_backups(1)[OF d l]
  from new have fS: "f \<in> set ?S" unfolding S by simp
  then obtain h rest where hr: "?S = h # rest" by (cases ?S) auto
  have "h = f"
  proof (rule ccontr)
    assume "h \<noteq> f"
    have "h \<in> set ?S" by (simp add: hr)
    then have "h \<in> set d" "is_backup h" unfolding S by simp_all
    from newer[OF this \<open>h \<noteq> f\<close>] have lt: "snd h < snd f" .
    from fS \<open>h \<noteq> f\<close> have "f \<in> set rest" by (simp add: hr)
    with newest_first_sorted[of "filter is_backup (listdir d)"] have "- snd h \<le> - snd f"
      by (simp add: hr)
    with lt show False by simp
  qed
  with n have "f \<in> set (take (nat n) ?S)"
    by (cases "nat n") (auto simp: hr)
  then have "f \<in> set (filter is_backup (cleanup_old_backups listdir d n))"
    using cleanup_backups_set[OF d l, of n] n by simp
  then show ?thesis by simp
qed

lemma count_after_copy:
  assumes "name \<notin> fst ` set d" and "is_backup (name, m)"
  shows "length (filter is_backup (AList.update name m d)) = Suc (length (filter is_backup d))"
proof -
  from assms(1) have "map_of d name = None" by (simp add: map_of_eq_None_iff)
  then have "AList.update name m d = d @ [(name, m)]" by (rule update_append)
  with assms(2) show ?thesis by simp
qed

lemma names_after_copy: "fst ` set (AList.update name m d) = insert name (fst ` set d)"
  using dom_update[of name m d] by simp

lemma rotate_count_fresh:
  assumes "distinct (map fst d)" and "0 \<le> n" and "backup_name b ts \<notin> fst ` set d"
    and "lists_directory listdir (AList.update (backup_name b ts) m d)"
  shows "length (filter is_backup (rotating_backup_file listdir (Some m) b ts n d))
           = min (nat n) (Suc (length (filter is_backup d)))"
  using cleanup_backups_length[OF distinct_update[OF assms(1)] assms(4) assms(2)]
    count_after_copy[OF assms(3) is_backup_backup_name, of m]
  by (simp add: rotating_backup_file_def)

lemma rotate_names:
  assumes "distinct (map fst d)" and "0 \<le> n"
    and "lists_directory listdir (AList.update (backup_name b ts) m d)"
  shows "distinct (map fst (rotating_backup_file listdir (Some m) b ts n d))"
    and "fst ` set (rotating_backup_file listdir (Some m) b ts n d)
           \<subseteq> insert (backup_name b ts) (fst ` set d)"
proof -
  let ?c = "AList.update (backup_name b ts) m d"
  have dc: "distinct (map fst ?c)" by (rule distinct_update[OF assms(1)])
  show "distinct (map fst (rotating_backup_file listdir (Some m) b ts n d))"
    using cleanup_names(1)[OF dc assms(3) assms(2)] by (simp add: rotating_backup_file_def)
  have "fst ` set (cleanup_old_backups listdir ?c n) \<subseteq> fst ` set ?c"
    using cleanup_names(2)[OF dc assms(3) assms(2)] by (rule image_mono)
  then show "fst ` set (rotating_backup_file listdir (Some m) b ts n d)
      \<subseteq> insert (backup_name b ts) (fst ` set d)"
    by (simp add: rotating_backup_file_def names_after_copy)
qed

lemma backups_count:
  assumes "distinct (map fst d)" and "0 \<le> n"
    and "\<forall>d. lists_directory listdir d"
    and "distinct (map snd runs)"
    and "\<forall>r \<in> set runs. backup_name b (snd r) \<notin> fst ` set d"
  shows "length (filter is_backup (backups listdir b n runs d))
           = (if runs = [] then length (filter is_backup d)
              else min (nat n) (length (filter is_backup d) + length runs))"
  using assms(1,4,5)
proof (induction runs arbitrary: d)
  case Nil
  then show ?case by simp
next
  case (Cons r runs)
  obtain m ts where r: "r = (m, ts)" by (cases r)
  let ?d = "rotating_backup_file listdir (Some m) b ts n d"
  from assms(3) have l: "lists_directory listdir (AList.update (backup_name b ts) m d)" by simp
  from Cons.prems(3) have fresh: "backup_name b ts \<notin> fst ` set d" by (simp add: r)
  have cnt: "length (filter is_backup ?d) = min (nat n) (Suc (length (filter is_backup d)))"
    by (rule rotate_count_fresh[OF Cons.prems(1) assms(2) fresh l])
  have d1: "distinct (map fst ?d)" by (rule rotate_names(1)[OF Cons.prems(1) assms(2) l])
  have d2: "distinct (map snd runs)" using Cons.prems(2) by simp
  have d3: "\<forall>r' \<in> set runs. backup_name b (snd r') \<notin> fst ` set ?d"
  proof
    fix r' assume r': "r' \<in> set runs"
    with Cons.prems(2) have "snd r' \<noteq> ts" by (auto simp: r)
    then have "backup_name b (snd r') \<noteq> backup_name b ts" by (simp add: backup_name_inj)
    moreover from Cons.prems(3) r' have "backup_name b (snd r') \<notin> fst ` set d" by simp
    ultimately show "backup_name b (snd r') \<notin> fst ` set ?d"
      using rotate_names(2)[OF Cons.prems(1) assms(2) l] by blast
  qed
  from Cons.IH[OF d1 d2 d3] show ?case
    by (simp add: r cnt min_def)
qed

text \<open>
  Claim C7, as the code has it. Take a directory, \<open>max_backups\<close> at least 0, and any order
  in which the directory is listed. After the copy and the clean-up the number of backup
  files is the smaller of \<open>max_backups\<close> and the number of backups present after the copy;
  the backups kept are among those present after the copy, and each of them is at least
  as new, by modification time, as every backup removed; the files that are not backups
  are all still there. A backup has the modification time of the file it was copied from,
  so the backup just made is among those kept when \<open>max_backups\<close> is positive and every
  other backup is older than the source file. Successive backups whose time stamps differ
  from each other and give names not yet in the directory leave exactly \<open>max_backups\<close>
  backup files, as soon as there is at least one of them and at least \<open>max_backups\<close>.
\<close>

theorem rotation_keeps_newest:
  assumes "distinct (map fst dir)" and "0 \<le> max_backups" and "\<forall>d. lists_directory listdir d"
  shows "length (filter is_backup
            (rotating_backup_file listdir (Some mtime) basename timestamp max_backups dir))
           = min (nat max_backups)
               (length (filter is_backup (AList.update (backup_name basename timestamp) mtime dir)))
       \<and> set (filter is_backup
            (rotating_backup_file listdir (Some mtime) basename timestamp max_backups dir))
           \<subseteq> set (filter is_backup (AList.update (backup_name basename timestamp) mtime dir))
       \<and> (\<forall>f \<in> set (filter is_backup
                  (rotating_backup_file listdir (Some mtime) basename timestamp max_backups dir)).
            \<forall>g \<in> set (filter is_backup (AList.update (backup_name basename timestamp) mtime dir)).
              g \<notin> set (rotating_backup_file listdir (Some mtime) basename timestamp max_backups dir)
              \<longrightarrow> snd g \<le> snd f)
       \<and> set (filter (\<lambda>f. \<not> is_backup f)
            (rotating_backup_file listdir (Some mtime) basename timestamp max_backups dir))
           = set (filter (\<lambda>f. \<not> is_backup f)
                    (AList.update (backup_name basename timestamp) mtime dir))
       \<and> (0 < max_backups
            \<and> (\<forall>f \<in> set dir. is_backup f \<and> fst f \<noteq> backup_name basename timestamp \<longrightarrow> snd f < mtime)
           \<longrightarrow> (backup_name basename timestamp, mtime)
                 \<in> set (rotating_backup_file listdir (Some mtime) basename timestamp max_backups dir))
       \<and> (runs \<noteq> [] \<and> nat max_backups \<le> length runs \<and> distinct (map snd runs)
            \<and> (\<forall>r \<in> set runs. backup_name basename (snd r) \<notin> fst ` set dir)
           \<longrightarrow> length (filter is_backup (backups listdir basename max_backups runs dir))
                 = nat max_backups)"
proof -
  let ?name = "backup_name basename timestamp"
  let ?c = "AList.update ?name mtime dir"
  have dc: "distinct (map fst ?c)" by (rule distinct_update[OF assms(1)])
  from assms(3) have l: "lists_directory listdir ?c" by simp
  have rot: "rotating_backup_file listdir (Some mtime) basename timestamp max_backups dir
      = cleanup_old_backups listdir ?c max_backups"
    by (simp add: rotating_backup_file_def)
  have 1: "length (filter is_backup (cleanup_old_backups listdir ?c max_backups))
      = min (nat max_backups) (length (filter is_backup ?c))"
    by (rule cleanup_backups_length[OF dc l assms(2)])
  have 2: "set (filter is_backup (cleanup_old_backups listdir ?c max_backups))
      \<subseteq> set (filter is_backup ?c)"
    using cleanup_names(2)[OF dc l assms(2)] by auto
  have 3: "\<forall>f \<in> set (filter is_backup (cleanup_old_backups listdir ?c max_backups)).
      \<forall>g \<in> set (filter is_backup ?c).
        g \<notin> set (cleanup_old_backups listdir ?c max_backups) \<longrightarrow> snd g \<le> snd f"
    using cleanup_keeps_newer[OF dc l assms(2)] by blast
  have 4: "set (filter (\<lambda>f. \<not> is_backup f) (cleanup_old_backups listdir ?c max_backups))
      = set (filter (\<lambda>f. \<not> is_backup f) ?c)"
    by (rule cleanup_other_files[OF dc l assms(2)])
  have 5: "(?name, mtime) \<in> set (cleanup_old_backups listdir ?c max_backups)"
    if pos: "0 < max_backups"
      and newer: "\<forall>f \<in> set dir. is_backup f \<and> fst f \<noteq> ?name \<longrightarrow> snd f < mtime"
  proof (rule newest_is_kept[OF dc l pos])
    have "map_of ?c ?name = Some mtime" by (simp add: update_conv')
    then show new: "(?name, mtime) \<in> set ?c" by (rule map_of_SomeD)
    show "is_backup (?name, mtime)" by (rule is_backup_backup_name)
    fix g assume g: "g \<in> set ?c" "is_backup g" "g \<noteq> (?name, mtime)"
    have "fst g \<noteq> ?name"
    proof
      assume "fst g = ?name"
      from same_name_same_file[OF dc g(1) new] this g(3) show False by simp
    qed
    moreover from g(1) set_update_subset[of ?name mtime dir] g(3) have "g \<in> set dir" by auto
    ultimately show "snd g < snd (?name, mtime)" using newer g(2) by simp
  qed
  have 6: "length (filter is_backup (backups listdir basename max_backups runs dir))
      = nat max_backups"
    if "runs \<noteq> []" "nat max_backups \<le> length runs" "distinct (map snd runs)"
      "\<forall>r \<in> set runs. backup_name basename (snd r) \<notin> fst ` set dir"
    using backups_count[OF assms that(3,4)] that(1,2) by simp
  show ?thesis unfolding rot
  proof (intro conjI impI)
    show "length (filter is_backup (cleanup_old_backups listdir ?c max_backups))
        = min (nat max_backups) (length (filter is_backup ?c))" by (rule 1)
    show "set (filter is_backup (cleanup_old_backups listdir ?c max_backups))
        \<subseteq> set (filter is_backup ?c)" by (rule 2)
    show "\<forall>f \<in> set (filter is_backup (cleanup_old_backups listdir ?c max_backups)).
        \<forall>g \<in> set (filter is_backup ?c).
          g \<notin> set (cleanup_old_backups listdir ?c max_backups) \<longrightarrow> snd g \<le> snd f" by (rule 3)
    show "set (filter (\<lambda>f. \<not> is_backup f) (cleanup_old_backups listdir ?c max_backups))
        = set (filter (\<lambda>f. \<not> is_backup f) ?c)" by (rule 4)
    show "(?name, mtime) \<in> set (cleanup_old_backups listdir ?c max_backups)"
      if "0 < max_backups
          \<and> (\<forall>f \<in> set dir. is_backup f \<and> fst f \<noteq> ?name \<longrightarrow> snd f < mtime)"
      using that 5 by blast
    show "length (filter is_backup (backups listdir basename max_backups runs dir))
        = nat max_backups"
      if "runs \<noteq> [] \<and> nat max_backups \<le> length runs \<and> distinct (map snd runs)
          \<and> (\<forall>r \<in> set runs. backup_name basename (snd r) \<notin> fst ` set dir)"
      using that 6 by blast
  qed
qed

text \<open>
  With two backups present and room for two, a backup of a newer source file is kept, and
  so is the count over two backups in a row; the directory is listed in reverse here.
\<close>

theorem rotation_keeps_newest_witness:
  "distinct (map fst two_backups)
   \<and> length (filter is_backup
        (rotating_backup_file rev (Some 400) ''vote_counts.json'' ''20240101_000002'' 2
           two_backups)) = 2
   \<and> (backup_name ''vote_counts.json'' ''20240101_000002'', 400)
       \<in> set (rotating_backup_file rev (Some 400) ''vote_counts.json'' ''20240101_000002'' 2
                two_backups)
   \<and> length (filter is_backup
        (backups rev ''vote_counts.json'' 2
           [(400, ''20240101_000002''), (500, ''20240101_000003'')] two_backups)) = 2"
proof -
  have h1: "distinct (map fst two_backups)" by (simp add: two_backups_def)
  have h2: "(0::int) \<le> 2" by simp
  have h3: "\<forall>d. lists_directory rev d" by (simp add: lists_directory_def)
  have c: "length (filter is_backup
      (AList.update (backup_name ''vote_counts.json'' ''20240101_000002'') 400 two_backups)) = 3"
    by (simp add: two_backups_def backup_name_def is_backup_def endswith_def)
  have newer: "\<forall>f \<in> set two_backups.
      is_backup f \<and> fst f \<noteq> backup_name ''vote_counts.json'' ''20240101_000002'' \<longrightarrow> snd f < 400"
    by (simp add: two_backups_def)
  have fresh: "\<forall>r \<in> set [(400::int, ''20240101_000002''), (500, ''20240101_000003'')].
      backup_name ''vote_counts.json'' (snd r) \<notin> fst ` set two_backups"
    by (simp add: two_backups_def backup_name_def)
  note w = rotation_keeps_newest [OF h1 h2 h3, of 400 "''vote_counts.json''" "''20240101_000002''"
      "[(400, ''20240101_000002''), (500, ''20240101_000003'')]"]
  from w c have 1: "length (filter is_backup
        (rotating_backup_file rev (Some 400) ''vote_counts.json'' ''20240101_000002'' 2
           two_backups)) = 2"
    by simp
  from w newer have 2: "(backup_name ''vote_counts.json'' ''20240101_000002'', 400)
       \<in> set (rotating_backup_file rev (Some 400) ''vote_counts.json'' ''20240101_000002'' 2
                two_backups)"
    by simp
  from w fresh have 3: "length (filter is_backup
        (backups rev ''vote_counts.json'' 2
           [(400, ''20240101_000002''), (500, ''20240101_000003'')] two_backups)) = 2"
    by simp
  from h1 1 2 3 show ?thesis by simp
qed

text \<open>
  Against claim C7 as stated: when the source file is older than the two backups present
  and \<open>max_backups\<close> is 2, the backup just made is the one removed, in whichever order the
  directory is listed.
\<close>

theorem rotation_drops_new_backup_counterexample:
  "rotating_backup_file (\<lambda>d. d) (Some 100) ''vote_counts.json'' ''20240101_000002'' 2 two_backups
     = two_backups
   \<and> rotating_backup_file rev (Some 100) ''vote_counts.json'' ''20240101_000002'' 2 two_backups
     = two_backups
   \<and> (backup_name ''vote_counts.json'' ''20240101_000002'', 100) \<notin> set two_backups"
  by code_simp

end
